theory Spec2Isabelle
  imports Complex_Main
begin

section \<open>Text and character classes\<close>

text \<open>
  An artifact is a JavaScript string. It is modelled as a \<open>string\<close>, a list of 8-bit
  characters, each standing for the code unit of the same value (the Latin-1 range).
  The character classes below are the ones the source's regular expressions and string
  methods use, restricted to that range:
  \<^item> \<open>\s\<close> and \<open>trim\<close>: TAB, LF, VT, FF, CR, SPACE and NBSP;
  \<^item> line terminators (for \<open>^\<close>, \<open>$\<close> and \<open>.\<close>): LF and CR;
  \<^item> \<open>\d\<close>: the ten digits; \<open>\w\<close>: letters, digits and the underscore;
  \<^item> the \<open>i\<close> flag compares characters after upper-casing; a character outside ASCII
    never becomes an ASCII one, and every pattern of the source is ASCII, so only the
    ASCII letters are folded.
\<close>

definition is_line_terminator :: "char \<Rightarrow> bool" where
  "is_line_terminator c \<longleftrightarrow> c = CHR 0x0A \<or> c = CHR 0x0D"

definition is_space :: "char \<Rightarrow> bool" where
  "is_space c \<longleftrightarrow>
     c = CHR 0x09 \<or> c = CHR 0x0A \<or> c = CHR 0x0B \<or> c = CHR 0x0C \<or> c = CHR 0x0D \<or>
     c = CHR 0x20 \<or> c = CHR 0xA0"

definition is_digit :: "char \<Rightarrow> bool" where
  "is_digit c \<longleftrightarrow> c \<in> set ''0123456789''"

definition is_lower :: "char \<Rightarrow> bool" where
  "is_lower c \<longleftrightarrow> c \<in> set ''abcdefghijklmnopqrstuvwxyz''"

definition is_upper :: "char \<Rightarrow> bool" where
  "is_upper c \<longleftrightarrow> c \<in> set ''ABCDEFGHIJKLMNOPQRSTUVWXYZ''"

definition is_word_char :: "char \<Rightarrow> bool" where
  "is_word_char c \<longleftrightarrow> is_lower c \<or> is_upper c \<or> is_digit c \<or> c = CHR ''_''"

text \<open>Upper-casing an ASCII letter clears bit 5 of its code (\<open>0x61\<close> to \<open>0x7A\<close>
  become \<open>0x41\<close> to \<open>0x5A\<close>); every other character is left as it is.\<close>

definition toUpperCase :: "char \<Rightarrow> char" where
  "toUpperCase c =
     (if is_lower c
      then (case c of Char b0 b1 b2 b3 b4 b5 b6 b7 \<Rightarrow> Char b0 b1 b2 b3 b4 False b6 b7)
      else c)"

text \<open>\<open>matches_at_ci p s\<close>: the literal pattern \<open>p\<close>, under the \<open>i\<close> flag, matches at the
  head of \<open>s\<close>.\<close>

fun matches_at_ci :: "string \<Rightarrow> string \<Rightarrow> bool" where
  "matches_at_ci [] s = True"
| "matches_at_ci (p # ps) [] = False"
| "matches_at_ci (p # ps) (c # cs) =
     (if toUpperCase p = toUpperCase c then matches_at_ci ps cs else False)"

section \<open>I1: controlled vocabulary validator\<close>

definition VOCABULARY :: "string list" where
  "VOCABULARY =
     [''Zero Trust'', ''MFA'', ''Bastion Host'', ''RBAC'',
      ''Data At Rest'', ''Data In Transit'', ''Least Privilege'', ''Air Gap'',
      ''SLA'', ''Biometric'', ''Cryptographic Salt'', ''PKI'',
      ''Endpoint Telemetry'', ''SIEM'', ''SOC2'', ''GDPR'',
      ''OIDC'', ''SAML'', ''Kill Chain'', ''Honeypot'']"

text \<open>The result of a validator: a violation count and a list of details. The style
  validator's result extends it.\<close>

record 'd ValidationResult =
  violations :: nat
  details :: "'d list"

record VocabularyDetail =
  vd_term :: string
  vd_count :: nat
  vd_expected :: nat

type_synonym VocabularyResult = "VocabularyDetail ValidationResult"

text \<open>
  \<open>text.match(new RegExp(term, 'gi'))?.length ?? 0\<close>: the global match scans from the
  left, and after a match the search resumes where the match ended, so the matches
  counted do not overlap. (The terms are not empty and hold no regular expression
  operator.)
\<close>

function count_matches :: "string \<Rightarrow> string \<Rightarrow> nat" where
  "count_matches t [] = 0"
| "count_matches t (c # cs) =
     (if matches_at_ci t (c # cs)
      then Suc (count_matches t (drop (length t - 1) cs))
      else count_matches t cs)"
  by pat_completeness auto
termination
  by (relation "measure (\<lambda>(t, s). length s)") auto

definition vocabulary_step :: "string \<Rightarrow> VocabularyResult \<Rightarrow> string \<Rightarrow> VocabularyResult" where
  "vocabulary_step text acc t =
     (let count = count_matches t text in
      if count \<noteq> 1
      then acc\<lparr>violations := violations acc + nat \<bar>int count - 1\<bar>,
               details := details acc @ [\<lparr>vd_term = t, vd_count = count, vd_expected = 1\<rparr>]\<rparr>
      else acc)"

definition validateVocabulary :: "string \<Rightarrow> VocabularyResult" where
  "validateVocabulary text =
     foldl (vocabulary_step text) \<lparr>violations = 0, details = []\<rparr> VOCABULARY"

section \<open>I2: section template validator\<close>

definition REQUIRED_SUBSECTIONS :: "string list" where
  "REQUIRED_SUBSECTIONS = [''Purpose'', ''Scope'', ''Directives'', ''Exceptions'', ''Enforcement'']"

record TemplateDetail =
  td_section :: string
  td_missing :: "string list"
  td_wrongOrder :: bool

type_synonym TemplateResult = "TemplateDetail ValidationResult"

record Section =
  sec_name :: string
  sec_startIndex :: nat
  sec_endIndex :: nat

text \<open>
  One match of \<open>/^#{1,2}\s+\d+\.\s+(.+)$/gm\<close> at a line start \<open>s\<close>: the digits of the
  number, the captured title and the length of the match. Each greedy quantifier has one
  way to succeed (the character after a run of hashes, spaces or digits cannot extend
  the run), but for the last \<open>\s+\<close>: when the white space runs to the end of the text
  the engine gives characters back until \<open>(.+)$\<close> can match, and the title is then the
  last character of that white space, past its first, that is not a line terminator.
\<close>

definition match_template_heading :: "string \<Rightarrow> (string \<times> string \<times> nat) option" where
  "match_template_heading s =
     (let hashes = takeWhile (\<lambda>c. c = CHR ''#'') (take 2 s);
          r1 = drop (length hashes) s;
          ws1 = takeWhile is_space r1;
          r2 = drop (length ws1) r1;
          ds = takeWhile is_digit r2;
          r3 = drop (length ds) r2
      in if hashes = [] \<or> ws1 = [] \<or> ds = [] then None
         else (case r3 of
                 [] \<Rightarrow> None
               | c # r4 \<Rightarrow>
                   if c \<noteq> CHR ''.'' then None
                   else
                     let ws2 = takeWhile is_space r4;
                         r5 = drop (length ws2) r4;
                         before = length hashes + length ws1 + length ds + 1
                     in if ws2 = [] then None
                        else if r5 \<noteq> [] then
                          let title = takeWhile (\<lambda>c. \<not> is_line_terminator c) r5
                          in Some (ds, title, before + length ws2 + length title)
                        else
                          let kept = rev (dropWhile is_line_terminator (rev (tl ws2)))
                          in if kept = [] then None
                             else Some (ds, [last kept], before + 1 + length kept)))"

text \<open>
  The \<open>exec\<close> loop of a global, multi-line regular expression anchored with \<open>^\<close>: a match
  is tried at each line start (the start of the text, or just after a line terminator),
  from the left, and the search resumes where the last match ended. \<open>pos\<close> is the index
  of the head of the remaining text, \<open>bol\<close> says whether it is a line start. Each result
  is the match's index and what the matcher returns.
\<close>

function scan_headings ::
  "(string \<Rightarrow> ('a \<times> nat) option) \<Rightarrow> nat \<Rightarrow> bool \<Rightarrow> string \<Rightarrow> (nat \<times> 'a) list" where
  "scan_headings m pos bol [] = []"
| "scan_headings m pos bol (c # cs) =
     (case (if bol then m (c # cs) else None) of
        Some (a, n) \<Rightarrow>
          (pos, a) # scan_headings m (pos + n) (is_line_terminator ((c # cs) ! (n - 1)))
                       (drop (n - 1) cs)
      | None \<Rightarrow> scan_headings m (pos + 1) (is_line_terminator c) cs)"
  by pat_completeness auto
termination
  by (relation "measure (\<lambda>(m, pos, bol, s). length s)") auto

definition template_headings :: "string \<Rightarrow> (nat \<times> string \<times> string) list" where
  "template_headings text =
     scan_headings (\<lambda>s. map_option (\<lambda>(ds, title, n). ((ds, title), n)) (match_template_heading s))
       0 True text"

text \<open>The sections as first pushed (every end index the text's length), then with each
  end index but the last set to the next section's start.\<close>

fun set_end_indices :: "Section list \<Rightarrow> Section list" where
  "set_end_indices (a # b # rest) =
     a\<lparr>sec_endIndex := sec_startIndex b\<rparr> # set_end_indices (b # rest)"
| "set_end_indices rest = rest"

definition parse_sections :: "string \<Rightarrow> Section list" where
  "parse_sections text =
     set_end_indices
       (map (\<lambda>(i, ds, title). \<lparr>sec_name = title, sec_startIndex = i, sec_endIndex = length text\<rparr>)
          (template_headings text))"

definition slice :: "string \<Rightarrow> nat \<Rightarrow> nat \<Rightarrow> string" where
  "slice text start fin = take (fin - start) (drop start text)"

text \<open>\<open>new RegExp(`###\\s+${sub}`, 'i').exec(sectionText)\<close>: the index of the first
  match, if any.\<close>

definition matches_subsection :: "string \<Rightarrow> string \<Rightarrow> bool" where
  "matches_subsection sub s =
     (case s of
        h1 # h2 # h3 # r \<Rightarrow>
          if h1 = CHR ''#'' \<and> h2 = CHR ''#'' \<and> h3 = CHR ''#'' then
            (let ws = takeWhile is_space r
             in if ws = [] then False else matches_at_ci sub (drop (length ws) r))
          else False
      | _ \<Rightarrow> False)"

fun find_subsection :: "string \<Rightarrow> string \<Rightarrow> nat option" where
  "find_subsection sub [] = None"
| "find_subsection sub (c # cs) =
     (if matches_subsection sub (c # cs) then Some 0
      else map_option Suc (find_subsection sub cs))"

definition subsection_step ::
  "string \<Rightarrow> string list \<times> nat list \<Rightarrow> string \<Rightarrow> string list \<times> nat list" where
  "subsection_step sectionText acc sub =
     (case acc of (missing, foundIndices) \<Rightarrow>
        (case find_subsection sub sectionText of
           None \<Rightarrow> (missing @ [sub], foundIndices)
         | Some i \<Rightarrow> (missing, foundIndices @ [i])))"

fun strictly_increasing :: "nat list \<Rightarrow> bool" where
  "strictly_increasing (a # b # rest) = (if b > a then strictly_increasing (b # rest) else False)"
| "strictly_increasing rest = True"

definition section_step :: "string \<Rightarrow> TemplateResult \<Rightarrow> Section \<Rightarrow> TemplateResult" where
  "section_step text acc sec =
     (let sectionText = slice text (sec_startIndex sec) (sec_endIndex sec);
          (missing, foundIndices) = foldl (subsection_step sectionText) ([], []) REQUIRED_SUBSECTIONS;
          wrongOrder = (length foundIndices > 1 \<and> \<not> strictly_increasing foundIndices)
      in if length missing > 0 \<or> wrongOrder
         then acc\<lparr>violations := violations acc + (length missing + (if wrongOrder then 1 else 0)),
                  details := details acc @
                    [\<lparr>td_section = sec_name sec, td_missing = missing, td_wrongOrder = wrongOrder\<rparr>]\<rparr>
         else acc)"

definition validateTemplate :: "string \<Rightarrow> TemplateResult" where
  "validateTemplate text =
     foldl (section_step text) \<lparr>violations = 0, details = []\<rparr> (parse_sections text)"


section \<open>I3: sentence length validator\<close>

definition MAX_WORDS :: nat where "MAX_WORDS = 25"
definition SHORT_THRESHOLD :: nat where "SHORT_THRESHOLD = 12"
definition SHORT_RATIO_TARGET :: real where "SHORT_RATIO_TARGET = 7 / 10"

text \<open>
  \<open>s.split(re)\<close> for a regular expression that matches the non-empty runs of the
  characters in a class \<open>P\<close> (\<open>/[.!?]+/\<close>, \<open>/\s+/\<close>): the pieces between the maximal
  runs, an empty first piece when the text starts with a run, and an empty last piece
  when it ends with one. The empty text gives one empty piece.
\<close>

function split_runs :: "(char \<Rightarrow> bool) \<Rightarrow> string \<Rightarrow> string list" where
  "split_runs P s =
     (case dropWhile (\<lambda>c. \<not> P c) s of
        [] \<Rightarrow> [s]
      | c # r \<Rightarrow> takeWhile (\<lambda>c. \<not> P c) s # split_runs P (dropWhile P r))"
  by pat_completeness auto
termination
proof (relation "measure (\<lambda>(P, s). length s)")
  fix P :: "char \<Rightarrow> bool" and s :: string and c r
  assume "dropWhile (\<lambda>c. \<not> P c) s = c # r"
  then have "length (c # r) \<le> length s"
    by (metis length_dropWhile_le)
  moreover have "length (dropWhile P r) \<le> length r"
    by (rule length_dropWhile_le)
  ultimately show "((P, dropWhile P r), (P, s)) \<in> measure (\<lambda>(P, s). length s)"
    by simp
qed simp

declare split_runs.simps [simp del]

definition is_sentence_end :: "char \<Rightarrow> bool" where
  "is_sentence_end c \<longleftrightarrow> c = CHR ''.'' \<or> c = CHR ''!'' \<or> c = CHR ''?''"

definition trim :: "string \<Rightarrow> string" where
  "trim s = rev (dropWhile is_space (rev (dropWhile is_space s)))"

definition startsWith :: "string \<Rightarrow> string \<Rightarrow> bool" where
  "startsWith s p \<longleftrightarrow> take (length p) s = p"

definition sentences_of :: "string \<Rightarrow> string list" where
  "sentences_of text =
     filter (\<lambda>s. length s > 0 \<and> \<not> startsWith s ''#'')
       (map trim (split_runs is_sentence_end text))"

definition wordCount :: "string \<Rightarrow> nat" where
  "wordCount sentence = length (split_runs is_space sentence)"

record StyleDetail =
  sd_sentence :: string
  sd_wordCount :: nat

record StyleResult = "StyleDetail ValidationResult" +
  totalSentences :: nat
  longSentences :: nat
  shortRatio :: real

text \<open>The loop's variables: \<open>longSentences\<close>, \<open>shortSentences\<close> and \<open>details\<close>.\<close>

definition style_step :: "nat \<times> nat \<times> StyleDetail list \<Rightarrow> string \<Rightarrow> nat \<times> nat \<times> StyleDetail list" where
  "style_step acc sentence =
     (case acc of (long, short, ds) \<Rightarrow>
        let wc = wordCount sentence;
            (long', ds') =
              (if wc > MAX_WORDS
               then (long + 1, ds @ [\<lparr>sd_sentence = slice sentence 0 50 @ ''...'', sd_wordCount = wc\<rparr>])
               else (long, ds));
            short' = (if wc \<le> SHORT_THRESHOLD then short + 1 else short)
        in (long', short', ds'))"

text \<open>
  The source computes the ratio and the penalty in double precision; the model computes
  them over the reals. Both give the same penalty: the penalty differs only if the exact
  value \<open>(7 n - 10 s) / n\<close> (for \<open>s\<close> short sentences of \<open>n\<close>) is an integer that the
  doubles miss, and on the seven ratios where it is an integer (0, 0.1, ..., 0.6) the
  double computation gives that integer or a value just below it.
\<close>

definition validateStyle :: "string \<Rightarrow> StyleResult" where
  "validateStyle text =
     (let sentences = sentences_of text;
          (long, short, ds) = foldl style_step (0, 0, []) sentences;
          ratio = (if length sentences > 0 then real short / real (length sentences) else 1);
          v = (if ratio < SHORT_RATIO_TARGET
               then long + nat \<lceil>(SHORT_RATIO_TARGET - ratio) * 10\<rceil>
               else long)
      in \<lparr>violations = v, details = ds, totalSentences = length sentences,
          longSentences = long, shortRatio = ratio\<rparr>)"

section \<open>I4: cross-reference validator\<close>

record CrossRefDetail =
  cd_reference :: string
  cd_targetSection :: string
  cd_exists :: bool

type_synonym CrossRefResult = "CrossRefDetail ValidationResult"

text \<open>\<open>\d+(?:\.\d+)?\<close> at the head of \<open>s\<close>, followed by whatever \<open>follows\<close> accepts: the
  number matched. The group is greedy: it is taken when it matches and the rest of the
  pattern succeeds after it, and left out otherwise.\<close>

definition match_number :: "(string \<Rightarrow> bool) \<Rightarrow> string \<Rightarrow> string option" where
  "match_number follows s =
     (let ds = takeWhile is_digit s;
          r = drop (length ds) s
      in if ds = [] then None
         else
           (let dotted =
                  (case r of
                     [] \<Rightarrow> None
                   | c # r' \<Rightarrow>
                       (let ds2 = takeWhile is_digit r'
                        in if c = CHR ''.'' \<and> ds2 \<noteq> [] \<and> follows (drop (length ds2) r')
                           then Some (ds @ ''.'' @ ds2) else None))
            in case dotted of
                 Some n \<Rightarrow> Some n
               | None \<Rightarrow> if follows r then Some ds else None))"

text \<open>One match of \<open>/^#{1,2}\s+(\d+(?:\.\d+)?)\.\s+/gm\<close> at a line start: the captured
  number and the length of the match.\<close>

definition match_crossref_heading :: "string \<Rightarrow> (string \<times> nat) option" where
  "match_crossref_heading s =
     (let hashes = takeWhile (\<lambda>c. c = CHR ''#'') (take 2 s);
          r1 = drop (length hashes) s;
          ws1 = takeWhile is_space r1;
          r2 = drop (length ws1) r1
      in if hashes = [] \<or> ws1 = [] then None
         else
           (case match_number (\<lambda>r. case r of c # d # r' \<Rightarrow> c = CHR ''.'' \<and> is_space d | _ \<Rightarrow> False) r2 of
              None \<Rightarrow> None
            | Some n \<Rightarrow>
                Some (n, length hashes + length ws1 + length n + 1 +
                         length (takeWhile is_space (drop (length n + 1) r2)))))"

definition existing_sections :: "string \<Rightarrow> string list" where
  "existing_sections text = map snd (scan_headings match_crossref_heading 0 True text)"

text \<open>One match of \<open>/[Ss]ee\s+[Ss]ection\s+(\d+(?:\.\d+)?)/g\<close> at the head of \<open>s\<close>: the
  whole match and the captured number.\<close>

definition match_reference :: "string \<Rightarrow> (string \<times> string) option" where
  "match_reference s =
     (if take 1 s \<in> {''S'', ''s''} \<and> take 2 (drop 1 s) = ''ee'' then
        (let r1 = drop 3 s;
             ws1 = takeWhile is_space r1;
             r2 = drop (length ws1) r1
         in if ws1 \<noteq> [] \<and> take 1 r2 \<in> {''S'', ''s''} \<and> take 6 (drop 1 r2) = ''ection'' then
              (let r3 = drop 7 r2;
                   ws2 = takeWhile is_space r3;
                   r4 = drop (length ws2) r3
               in if ws2 = [] then None
                  else (case match_number (\<lambda>r. True) r4 of
                          None \<Rightarrow> None
                        | Some n \<Rightarrow> Some (take (3 + length ws1 + 7 + length ws2 + length n) s, n)))
            else None)
      else None)"

function scan_references :: "string \<Rightarrow> (string \<times> string) list" where
  "scan_references [] = []"
| "scan_references (c # cs) =
     (case match_reference (c # cs) of
        Some (whole, n) \<Rightarrow> (whole, n) # scan_references (drop (length whole - 1) cs)
      | None \<Rightarrow> scan_references cs)"
  by pat_completeness auto
termination
  by (relation "measure length") auto

definition crossref_step :: "string list \<Rightarrow> CrossRefResult \<Rightarrow> string \<times> string \<Rightarrow> CrossRefResult" where
  "crossref_step existingSections acc m =
     (case m of (whole, targetSection) \<Rightarrow>
        let exists = (targetSection \<in> set existingSections)
        in if \<not> exists
           then acc\<lparr>violations := violations acc + 1,
                    details := details acc @
                      [\<lparr>cd_reference = whole, cd_targetSection = targetSection, cd_exists = exists\<rparr>]\<rparr>
           else acc)"

definition validateCrossRefs :: "string \<Rightarrow> CrossRefResult" where
  "validateCrossRefs text =
     foldl (crossref_step (existing_sections text)) \<lparr>violations = 0, details = []\<rparr>
       (scan_references text)"

section \<open>Atypicality validator\<close>

datatype AtypicalityLevel = low | mid | high

type_synonym AtypicalityResult = "string ValidationResult"

text \<open>\<open>text.match(/\b\w+\b/g) || []\<close>: the maximal runs of word characters, from the
  left.\<close>

function words_of :: "string \<Rightarrow> string list" where
  "words_of s =
     (case dropWhile (\<lambda>c. \<not> is_word_char c) s of
        [] \<Rightarrow> []
      | c # r \<Rightarrow> takeWhile is_word_char (c # r) # words_of (dropWhile is_word_char r))"
  by pat_completeness auto
termination
proof (relation "measure length")
  fix s :: string and c r
  assume "dropWhile (\<lambda>c. \<not> is_word_char c) s = c # r"
  then have "length (c # r) \<le> length s"
    by (metis length_dropWhile_le)
  moreover have "length (dropWhile is_word_char r) \<le> length r"
    by (rule length_dropWhile_le)
  ultimately show "(dropWhile is_word_char r, s) \<in> measure length"
    by simp
qed simp

declare words_of.simps [simp del]

definition charAt :: "string \<Rightarrow> nat \<Rightarrow> string" where
  "charAt s i = (if i < length s then [s ! i] else [])"

definition titlecase_step :: "AtypicalityResult \<Rightarrow> string \<Rightarrow> AtypicalityResult" where
  "titlecase_step acc word =
     (let firstChar = charAt word 0
      in if firstChar \<noteq> map toUpperCase firstChar \<and>
            (\<exists>c \<in> set firstChar. is_lower c \<or> is_upper c)
         then acc\<lparr>violations := violations acc + 1,
                  details := (if length (details acc) < 5
                              then details acc @ [''TitleCase violation: '' @ word]
                              else details acc)\<rparr>
         else acc)"

definition thirdletter_step :: "AtypicalityResult \<Rightarrow> string \<Rightarrow> AtypicalityResult" where
  "thirdletter_step acc word =
     (if length word \<ge> 3 then
        (let thirdChar = charAt word 2
         in if (\<exists>c \<in> set thirdChar. is_lower c)
            then acc\<lparr>violations := violations acc + 1,
                     details := (if length (details acc) < 5
                                 then details acc @ [''3rdLetter violation: '' @ word]
                                 else details acc)\<rparr>
            else acc)
      else acc)"

definition validateAtypicality :: "string \<Rightarrow> AtypicalityLevel \<Rightarrow> AtypicalityResult" where
  "validateAtypicality text level =
     (if level = low then \<lparr>violations = 0, details = []\<rparr>
      else
        (let words = words_of text;
             r0 = \<lparr>violations = 0, details = []\<rparr>;
             r1 = (if level = mid then foldl titlecase_step r0 words else r0);
             r2 = (if level = high then foldl thirdletter_step r1 words else r1)
         in r2))"

section \<open>Combined drift score\<close>

record DriftScore =
  total :: nat
  vocabulary :: VocabularyResult
  template :: TemplateResult
  style :: StyleResult
  crossRefs :: CrossRefResult
  atypicality :: AtypicalityResult

definition calculateDrift :: "string \<Rightarrow> AtypicalityLevel \<Rightarrow> DriftScore" where
  "calculateDrift text atypicalityLevel =
     (let vocabulary' = validateVocabulary text;
          template' = validateTemplate text;
          style' = validateStyle text;
          crossRefs' = validateCrossRefs text;
          atypicality' = validateAtypicality text atypicalityLevel;
          total' = violations vocabulary' + violations template' + violations style' +
                   violations crossRefs' + violations atypicality'
      in \<lparr>total = total', vocabulary = vocabulary', template = template', style = style',
          crossRefs = crossRefs', atypicality = atypicality'\<rparr>)"

section \<open>The generation boundary\<close>

text \<open>
  The completion endpoint is a parameter: a function from its own state and a request to
  a response or a thrown error, and its next state. \<open>generate\<close> threads the endpoint's
  state, the usage counters and the delays it has slept (in milliseconds, in order)
  through its calls; elapsed time is not modelled.
\<close>

definition client_MAX_RETRIES :: nat where "client_MAX_RETRIES = 5"
definition INITIAL_DELAY_MS :: nat where "INITIAL_DELAY_MS = 1000"

datatype ModelTier = mini | thinking

definition MODELS :: "ModelTier \<Rightarrow> string" where
  "MODELS m = (case m of mini \<Rightarrow> ''gpt-4o-mini'' | thinking \<Rightarrow> ''gpt-5.2'')"

record GenerateOptions =
  systemPrompt :: string
  userPrompt :: string
  temperature :: "real option"
  model :: "ModelTier option"

record ChatRequest =
  req_model :: string
  req_temperature :: real
  req_messages :: "(string \<times> string) list"

record ChatResponse =
  content :: "string option"
  prompt_tokens :: "nat option"
  completion_tokens :: "nat option"

type_synonym ('e, 'p) endpoint = "'p \<Rightarrow> ChatRequest \<Rightarrow> ('e + ChatResponse) \<times> 'p"

record 'p ClientState =
  provider :: 'p
  totalCalls :: nat
  totalInputTokens :: nat
  totalOutputTokens :: nat
  slept :: "nat list"

definition or_else :: "'a option \<Rightarrow> 'a \<Rightarrow> 'a" where
  "or_else x d = (case x of Some v \<Rightarrow> v | None \<Rightarrow> d)"

text \<open>The retry loop of \<open>generate\<close>, from attempt \<open>attempt\<close> on. The error it throws at
  the end is \<open>lastError\<close>: \<open>None\<close> is the initial \<open>null\<close>.\<close>

function generate_from ::
  "('e, 'p) endpoint \<Rightarrow> ChatRequest \<Rightarrow> nat \<Rightarrow> 'e option \<Rightarrow> 'p ClientState \<Rightarrow>
     ('e option + string) \<times> 'p ClientState" where
  "generate_from create req attempt lastError st =
     (if attempt \<le> client_MAX_RETRIES then
        (case create (provider st) req of
           (Inr response, p') \<Rightarrow>
             (Inr (or_else (content response) []),
              st\<lparr>provider := p',
                 totalCalls := totalCalls st + 1,
                 totalInputTokens := totalInputTokens st + or_else (prompt_tokens response) 0,
                 totalOutputTokens := totalOutputTokens st + or_else (completion_tokens response) 0\<rparr>)
         | (Inl error, p') \<Rightarrow>
             generate_from create req (attempt + 1) (Some error)
               (st\<lparr>provider := p',
                   slept := slept st @ [INITIAL_DELAY_MS * 2 ^ (attempt - 1)]\<rparr>))
      else (Inl lastError, st))"
  by pat_completeness auto
termination
  by (relation "measure (\<lambda>(create, req, attempt, lastError, st). Suc client_MAX_RETRIES - attempt)")
     auto

declare generate_from.simps [simp del]

definition chat_request :: "GenerateOptions \<Rightarrow> ChatRequest" where
  "chat_request options =
     \<lparr>req_model = MODELS (or_else (model options) mini),
      req_temperature = or_else (temperature options) 0,
      req_messages = [(''system'', systemPrompt options), (''user'', userPrompt options)]\<rparr>"

definition generate ::
  "('e, 'p) endpoint \<Rightarrow> GenerateOptions \<Rightarrow> 'p ClientState \<Rightarrow> ('e option + string) \<times> 'p ClientState" where
  "generate create options st = generate_from create (chat_request options) 1 None st"

section \<open>Strategies\<close>

text \<open>
  The prompts are passed to the endpoint and nothing else reads them. Their two
  characters beyond Latin-1, the warning sign and the less-or-equal sign, are written as
  their UTF-8 bytes.
\<close>

definition WARNING_SIGN :: string where
  "WARNING_SIGN = [CHR 0xE2, CHR 0x9A, CHR 0xA0, CHR 0xEF, CHR 0xB8, CHR 0x8F]"

definition LESS_EQUAL_SIGN :: string where
  "LESS_EQUAL_SIGN = [CHR 0xE2, CHR 0x89, CHR 0xA4]"

definition NL :: string where
  "NL = [CHR 0x0A]"

text \<open>\<open>Array.prototype.join\<close>, and the decimal digits of a number in a template.\<close>

fun join :: "string \<Rightarrow> string list \<Rightarrow> string" where
  "join sep [] = []"
| "join sep [x] = x"
| "join sep (x # y # rest) = x @ sep @ join sep (y # rest)"

function string_of_nat :: "nat \<Rightarrow> string" where
  "string_of_nat n =
     (if n < 10 then [''0123456789'' ! n]
      else string_of_nat (n div 10) @ [''0123456789'' ! (n mod 10)])"
  by pat_completeness auto
termination
  by (relation "measure id") auto

declare string_of_nat.simps [simp del]

record EvolveResult =
  artifact :: string
  retries :: nat
  finalScore :: DriftScore
  converged :: bool
  driftHistory :: "nat list"

type_synonym RepairResult = EvolveResult
type_synonym RegenerationResult = EvolveResult

subsection \<open>Strategy A: incremental\<close>

definition incremental_SYSTEM_PROMPT :: string where
  "incremental_SYSTEM_PROMPT = join NL
     [''You are a technical writer maintaining a Cybersecurity Policy document.'',
      ''Apply the requested change while preserving the existing strict structure and style.'',
      ''Return ONLY the complete updated document, no explanations.'']"

definition apply_patch_prompt :: "string \<Rightarrow> string \<Rightarrow> string" where
  "apply_patch_prompt previousArtifact patchRequest = join NL
     [''Here is the current policy document:'',
      '''',
      previousArtifact,
      '''',
      ''---'',
      '''',
      ''Apply the following change:'',
      patchRequest,
      '''',
      ''Return the complete updated document.'']"

definition incremental_options :: "string \<Rightarrow> string \<Rightarrow> GenerateOptions" where
  "incremental_options previousArtifact patchRequest =
     \<lparr>systemPrompt = incremental_SYSTEM_PROMPT,
      userPrompt = apply_patch_prompt previousArtifact patchRequest,
      temperature = None, model = None\<rparr>"

definition incrementalEvolve ::
  "('e, 'p) endpoint \<Rightarrow> string \<Rightarrow> string \<Rightarrow> 'p ClientState \<Rightarrow>
     ('e option + string) \<times> 'p ClientState" where
  "incrementalEvolve create previousArtifact patchRequest st =
     generate create (incremental_options previousArtifact patchRequest) st"

subsection \<open>Strategy B: incremental + repair\<close>

definition repair_MAX_RETRIES :: nat where "repair_MAX_RETRIES = 3"

definition repair_SYSTEM_PROMPT :: string where
  "repair_SYSTEM_PROMPT = join NL
     [''You are a technical writer maintaining a Cybersecurity Policy document.'',
      ''Apply the requested change while strictly following these rules:'',
      ''1. Each term from the controlled vocabulary must appear exactly once'',
      ''2. Every section must have subsections: Purpose, Scope, Directives, Exceptions, Enforcement'',
      ''3. Max sentence length: 25 words. At least 70% sentences '' @ LESS_EQUAL_SIGN @ ''12 words'',
      ''4. All \"See Section X\" references must point to existing sections'',
      '''',
      ''Return ONLY the complete updated document, no explanations.'']"

definition repair_formatViolations :: "DriftScore \<Rightarrow> string" where
  "repair_formatViolations score = join NL
     ((if violations (vocabulary score) > 0
       then [''Vocabulary: '' @ join ''; ''
               (map (\<lambda>d. ''\"'' @ vd_term d @ ''\" appears '' @ string_of_nat (vd_count d) @
                          '' times (expected 1)'')
                  (details (vocabulary score)))]
       else []) @
      (if violations (template score) > 0
       then [''Template: '' @ join ''; ''
               (map (\<lambda>d. ''Section \"'' @ td_section d @ ''\" missing: '' @ join '', '' (td_missing d))
                  (details (template score)))]
       else []) @
      (if violations (style score) > 0
       then [''Style: '' @ string_of_nat (longSentences (style score)) @ '' sentences exceed 25 words'']
       else []) @
      (if violations (crossRefs score) > 0
       then [''Cross-refs: Broken references: '' @
               join '', '' (map cd_reference (details (crossRefs score)))]
       else []))"

definition repair_prompt :: "string \<Rightarrow> string \<Rightarrow> string" where
  "repair_prompt artifact' violationsSummary = join NL
     [''Here is a document with violations that must be fixed:'',
      '''',
      artifact',
      '''',
      ''---'',
      '''',
      WARNING_SIGN @ '' VIOLATIONS TO FIX:'',
      violationsSummary,
      '''',
      ''Fix ALL violations while keeping the document content intact.'',
      ''Return the complete fixed document.'']"

text \<open>The options of the first call of \<open>repairEvolve\<close> and of the calls of its loop.\<close>

definition patch_options :: "string \<Rightarrow> string \<Rightarrow> GenerateOptions" where
  "patch_options previousArtifact patchRequest =
     \<lparr>systemPrompt = repair_SYSTEM_PROMPT,
      userPrompt = apply_patch_prompt previousArtifact patchRequest,
      temperature = None, model = None\<rparr>"

definition fix_options :: "string \<Rightarrow> string \<Rightarrow> GenerateOptions" where
  "fix_options artifact' violationsSummary =
     \<lparr>systemPrompt = repair_SYSTEM_PROMPT,
      userPrompt = repair_prompt artifact' violationsSummary,
      temperature = None, model = None\<rparr>"

text \<open>The repair loop, with the loop's variables as arguments. A failed generation
  leaves the loop with the error, as the exception does.\<close>

function repair_loop ::
  "('e, 'p) endpoint \<Rightarrow> string \<Rightarrow> DriftScore \<Rightarrow> nat \<Rightarrow> nat \<Rightarrow> nat list \<Rightarrow> 'p ClientState \<Rightarrow>
     ('e option + RepairResult) \<times> 'p ClientState" where
  "repair_loop create artifact' score retries' prevScore driftHistory' st =
     (if total score > 0 \<and> retries' < repair_MAX_RETRIES then
        (case generate create (fix_options artifact' (repair_formatViolations score)) st of
           (Inl e, st') \<Rightarrow> (Inl e, st')
         | (Inr next, st') \<Rightarrow>
             (let score' = calculateDrift next low;
                  history = driftHistory' @ [total score']
              in if total score' \<ge> prevScore
                 then (Inr \<lparr>artifact = next, retries = retries' + 1, finalScore = score',
                            converged = (total score' = 0), driftHistory = history\<rparr>, st')
                 else repair_loop create next score' (retries' + 1) (total score') history st'))
      else (Inr \<lparr>artifact = artifact', retries = retries', finalScore = score,
                 converged = (total score = 0), driftHistory = driftHistory'\<rparr>, st))"
  by pat_completeness auto
termination
  by (relation "measure (\<lambda>(create, a, score, r, prev, h, st). repair_MAX_RETRIES - r)") auto

declare repair_loop.simps [simp del]

definition repairEvolve ::
  "('e, 'p) endpoint \<Rightarrow> string \<Rightarrow> string \<Rightarrow> 'p ClientState \<Rightarrow>
     ('e option + RepairResult) \<times> 'p ClientState" where
  "repairEvolve create previousArtifact patchRequest st =
     (case generate create (patch_options previousArtifact patchRequest) st of
        (Inl e, st') \<Rightarrow> (Inl e, st')
      | (Inr first, st') \<Rightarrow>
          (let score = calculateDrift first low
           in repair_loop create first score 0 (total score) [total score] st'))"

subsection \<open>Strategies C, D, E: regeneration\<close>

definition regeneration_MAX_RETRIES :: nat where "regeneration_MAX_RETRIES = 3"

definition regeneration_SYSTEM_PROMPT :: string where
  "regeneration_SYSTEM_PROMPT = join NL
     [''You are a technical writer creating a Cybersecurity Policy document.'',
      '''',
      ''CRITICAL STRUCTURAL RULES (these OVERRIDE any conflicting requirements):'',
      '''',
      ''1. VOCABULARY: Each term must appear EXACTLY ONCE (no more, no less):'',
      ''   Zero Trust, MFA, Bastion Host, RBAC, Data At Rest, Data In Transit, '',
      ''   Least Privilege, Air Gap, SLA, Biometric, Cryptographic Salt, PKI, '',
      ''   Endpoint Telemetry, SIEM, SOC2, GDPR, OIDC, SAML, Kill Chain, Honeypot'',
      ''   '',
      ''2. STRUCTURE: Every numbered section MUST have these subsections IN ORDER:'',
      ''   ### Purpose'',
      ''   ### Scope'',
      ''   ### Directives'',
      ''   ### Exceptions'',
      ''   ### Enforcement'',
      ''   '',
      ''3. STYLE: Maximum 25 words per sentence. At least 70% sentences must be '' @
        LESS_EQUAL_SIGN @ ''12 words.'',
      '''',
      ''4. REFERENCES: All \"See Section X\" must point to existing sections.'',
      '''',
      ''If any requirement conflicts with these rules, IGNORE the requirement and follow the rules.'']"

record RegenerationOptions =
  useRetries :: "bool option"
  atypicalityLevel :: "AtypicalityLevel option"

definition regeneration_formatViolations :: "DriftScore \<Rightarrow> string" where
  "regeneration_formatViolations score = join NL
     ((if violations (vocabulary score) > 0
       then [''VOCABULARY ERRORS: '' @ join ''; ''
               (map (\<lambda>d. ''\"'' @ vd_term d @ ''\" appears '' @ string_of_nat (vd_count d) @
                          '' times (must be exactly 1)'')
                  (details (vocabulary score)))]
       else []) @
      (if violations (template score) > 0
       then [''STRUCTURE ERRORS: '' @ join ''; ''
               (map (\<lambda>d. ''Section \"'' @ td_section d @ ''\" missing: '' @ join '', '' (td_missing d))
                  (details (template score)))]
       else []) @
      (if violations (style score) > 0
       then [''STYLE ERRORS: '' @ string_of_nat (longSentences (style score)) @
               '' sentences exceed 25 words limit'']
       else []) @
      (if violations (crossRefs score) > 0
       then [''REFERENCE ERRORS: Broken references: '' @
               join '', '' (map cd_reference (details (crossRefs score)))]
       else []) @
      (if violations (atypicality score) > 0
       then [''FORMATTING ERRORS (Atypicality Rejections): '' @
               string_of_nat (violations (atypicality score)) @ '' violations found. Examples: '' @
               join '', '' (take 3 (details (atypicality score))) @ ''...'']
       else []))"

text \<open>\<open>accumulatedPatches.map((p, i) => `${i + 1}. ${p}`).join('\n')\<close>\<close>

definition patchesSummary :: "string list \<Rightarrow> string" where
  "patchesSummary accumulatedPatches =
     join NL (map (\<lambda>(i, p). string_of_nat (i + 1) @ ''. '' @ p)
                (zip [0..<length accumulatedPatches] accumulatedPatches))"

definition simple_options :: "string \<Rightarrow> string list \<Rightarrow> GenerateOptions" where
  "simple_options blueprint accumulatedPatches =
     \<lparr>systemPrompt = regeneration_SYSTEM_PROMPT,
      userPrompt = join NL
        [''Generate a Cybersecurity Policy document.'',
         '''',
         ''BASE STRUCTURE (use as template):'',
         blueprint,
         '''',
         ''INCORPORATE THESE REQUIREMENTS (structural rules take priority):'',
         patchesSummary accumulatedPatches,
         '''',
         ''Generate the complete document. Structural rules OVERRIDE conflicting requirements.''],
      temperature = None, model = None\<rparr>"

definition regenerationEvolveSimple ::
  "('e, 'p) endpoint \<Rightarrow> string \<Rightarrow> string list \<Rightarrow> AtypicalityLevel option \<Rightarrow> 'p ClientState \<Rightarrow>
     ('e option + RegenerationResult) \<times> 'p ClientState" where
  "regenerationEvolveSimple create blueprint accumulatedPatches level st =
     (case generate create (simple_options blueprint accumulatedPatches) st of
        (Inl e, st') \<Rightarrow> (Inl e, st')
      | (Inr a, st') \<Rightarrow>
          (let score = calculateDrift a (or_else level low)
           in (Inr \<lparr>artifact = a, retries = 0, finalScore = score,
                    converged = (total score = 0), driftHistory = [total score]\<rparr>, st')))"

definition reconcile_options :: "string list \<Rightarrow> GenerateOptions" where
  "reconcile_options accumulatedPatches =
     \<lparr>systemPrompt = join NL
        [''You are a requirements analyst. Your job is to reconcile conflicting requirements.'',
         '''',
         ''Given a list of requirements, identify and resolve conflicts by:'',
         ''1. Removing requirements that contradict structural rules (vocabulary, section structure, style)'',
         ''2. Merging similar requirements'',
         ''3. Prioritizing requirements that respect the original document structure'',
         '''',
         ''Output a CLEAN, NON-CONFLICTING list of requirements.''],
      userPrompt = join NL
        [''STRUCTURAL RULES (must be preserved):'',
         ''1. Each of these 20 terms must appear exactly once: Zero Trust, MFA, Bastion Host, RBAC, Data At Rest, Data In Transit, Least Privilege, Air Gap, SLA, Biometric, Cryptographic Salt, PKI, Endpoint Telemetry, SIEM, SOC2, GDPR, OIDC, SAML, Kill Chain, Honeypot'',
         ''2. Every section must have: Purpose, Scope, Directives, Exceptions, Enforcement'',
         ''3. Max 25 words per sentence'',
         '''',
         ''REQUIREMENTS TO RECONCILE:'',
         patchesSummary accumulatedPatches,
         '''',
         ''Output only the reconciled requirements list, numbered. Remove any that conflict with structural rules.''],
      temperature = None, model = Some thinking\<rparr>"

definition generate_options :: "string \<Rightarrow> string \<Rightarrow> GenerateOptions" where
  "generate_options blueprint reconciledRequirements =
     \<lparr>systemPrompt = regeneration_SYSTEM_PROMPT,
      userPrompt = join NL
        [''Generate a Cybersecurity Policy document.'',
         '''',
         ''BASE STRUCTURE (use as template):'',
         blueprint,
         '''',
         ''RECONCILED REQUIREMENTS:'',
         reconciledRequirements,
         '''',
         ''Generate the complete document following ALL structural rules.''],
      temperature = None, model = None\<rparr>"

definition regenerate_options :: "string \<Rightarrow> string \<Rightarrow> string \<Rightarrow> GenerateOptions" where
  "regenerate_options blueprint reconciledRequirements violations' =
     \<lparr>systemPrompt = regeneration_SYSTEM_PROMPT,
      userPrompt = join NL
        [''Generate a Cybersecurity Policy document.'',
         '''',
         ''BASE STRUCTURE:'',
         blueprint,
         '''',
         ''RECONCILED REQUIREMENTS:'',
         reconciledRequirements,
         '''',
         WARNING_SIGN @ '' YOUR PREVIOUS ATTEMPT HAD THESE ERRORS - FIX THEM:'',
         violations',
         '''',
         ''Generate the complete document with ALL errors fixed.''],
      temperature = None, model = None\<rparr>"

text \<open>The retry loop of \<open>regenerationEvolve\<close>, with the loop's variables as arguments
  (\<open>prevScore\<close>, which the source assigns and never reads, is left out).\<close>

function regeneration_loop ::
  "('e, 'p) endpoint \<Rightarrow> string \<Rightarrow> string \<Rightarrow> AtypicalityLevel \<Rightarrow> DriftScore \<Rightarrow> nat \<Rightarrow>
     nat \<Rightarrow> string \<Rightarrow> nat list \<Rightarrow> 'p ClientState \<Rightarrow>
     ('e option + RegenerationResult) \<times> 'p ClientState" where
  "regeneration_loop create blueprint reconciled level score retries' bestScore bestArtifact
       driftHistory' st =
     (if total score > 0 \<and> retries' < regeneration_MAX_RETRIES then
        (case generate create
                (regenerate_options blueprint reconciled (regeneration_formatViolations score)) st of
           (Inl e, st') \<Rightarrow> (Inl e, st')
         | (Inr nextArtifact, st') \<Rightarrow>
             (let nextScore = calculateDrift nextArtifact level;
                  history = driftHistory' @ [total nextScore];
                  (bestScore', bestArtifact') =
                    (if total nextScore < bestScore then (total nextScore, nextArtifact)
                     else (bestScore, bestArtifact))
              in if total nextScore = 0
                 then (Inr \<lparr>artifact = bestArtifact', retries = retries' + 1,
                            finalScore = calculateDrift bestArtifact' level,
                            converged = (bestScore' = 0), driftHistory = history\<rparr>, st')
                 else regeneration_loop create blueprint reconciled level nextScore (retries' + 1)
                        bestScore' bestArtifact' history st'))
      else (Inr \<lparr>artifact = bestArtifact, retries = retries',
                 finalScore = calculateDrift bestArtifact level,
                 converged = (bestScore = 0), driftHistory = driftHistory'\<rparr>, st))"
  by pat_completeness auto
termination
  by (relation "measure (\<lambda>(create, b, rc, l, score, r, bs, ba, h, st). regeneration_MAX_RETRIES - r)")
     auto

declare regeneration_loop.simps [simp del]

definition regenerationEvolve ::
  "('e, 'p) endpoint \<Rightarrow> string \<Rightarrow> string list \<Rightarrow> RegenerationOptions \<Rightarrow> 'p ClientState \<Rightarrow>
     ('e option + RegenerationResult) \<times> 'p ClientState" where
  "regenerationEvolve create blueprint accumulatedPatches options st =
     (let level = or_else (atypicalityLevel options) low
      in case generate create (reconcile_options accumulatedPatches) st of
           (Inl e, st1) \<Rightarrow> (Inl e, st1)
         | (Inr reconciledRequirements, st1) \<Rightarrow>
             (case generate create (generate_options blueprint reconciledRequirements) st1 of
                (Inl e, st2) \<Rightarrow> (Inl e, st2)
              | (Inr a, st2) \<Rightarrow>
                  (let score = calculateDrift a level
                   in if or_else (useRetries options) False
                      then regeneration_loop create blueprint reconciledRequirements level score 0
                             (total score) a [total score] st2
                      else (Inr \<lparr>artifact = a, retries = 0, finalScore = score,
                                 converged = (total score = 0), driftHistory = [total score]\<rparr>,
                            st2))))"

section \<open>The evolution engine\<close>

text \<open>The strategy is read from the command line and cast, so any string can arrive;
  \<open>other\<close> is a strategy that is none of the five.\<close>

datatype Strategy = incremental | repair | regeneration | regen_reconcile | regen_full | other string

datatype 'e EngineError = GenerationFailure "'e option" | UnknownStrategy string

definition getAtypicalityPrompt :: "AtypicalityLevel \<Rightarrow> string" where
  "getAtypicalityPrompt level =
     (if level = mid then
        NL @ NL @ ''CONSTRAINT: You must write in Title Case. ALL words (including small ones like \"is\", \"the\", \"a\") must start with a Capital Letter.''
      else if level = high then
        NL @ NL @ ''CONSTRAINT: You must write in 3rd-Letter-Uppercase Case. The third letter of every word (if it exists) must be capitalized (e.g., \"heLlo woRld\", \"teSt\", \"is\", \"a\", \"coMplex\"). ALL OTHER letters must be lowercase (except the first letter if it starts a sentence). DO NOT use Title Case or random caps.''
      else [])"

record EngineOptions =
  opt_strategy :: Strategy
  opt_runId :: string
  opt_iterations :: nat
  opt_atypicalityLevel :: "AtypicalityLevel option"

record IterationMetrics =
  iteration :: nat
  driftScore :: nat
  m_retries :: nat
  m_converged :: bool
  vocabularyViolations :: nat
  templateViolations :: nat
  styleViolations :: nat
  crossRefViolations :: nat
  atypicalityViolations :: "nat option"
  m_driftHistory :: "nat list option"

record RunMetrics =
  run_runId :: string
  run_strategy :: Strategy
  run_iterations :: "IterationMetrics list"

definition metrics_of :: "nat \<Rightarrow> DriftScore \<Rightarrow> nat \<Rightarrow> bool \<Rightarrow> nat list option \<Rightarrow> IterationMetrics" where
  "metrics_of i score r c h =
     \<lparr>iteration = i, driftScore = total score, m_retries = r, m_converged = c,
      vocabularyViolations = violations (vocabulary score),
      templateViolations = violations (template score),
      styleViolations = violations (style score),
      crossRefViolations = violations (crossRefs score),
      atypicalityViolations = Some (violations (atypicality score)),
      m_driftHistory = h\<rparr>"

text \<open>
  One pass of the loop body of \<open>runExperiment\<close>, after the patch has been pushed onto
  \<open>accumulatedPatches\<close>: the \<open>switch\<close> on the strategy. It gives the new current artifact
  and the iteration's metrics, or the error that ends the run. Console output is left
  out.
\<close>

definition run_iteration ::
  "('e, 'p) endpoint \<Rightarrow> EngineOptions \<Rightarrow> string \<Rightarrow> nat \<Rightarrow> string \<Rightarrow> string list \<Rightarrow> string \<Rightarrow>
     'p ClientState \<Rightarrow> ('e EngineError + string \<times> IterationMetrics) \<times> 'p ClientState" where
  "run_iteration create options blueprint i patch accumulatedPatches currentArtifact st =
     (let level = or_else (opt_atypicalityLevel options) low;
          promptSuffix = getAtypicalityPrompt level;
          effectiveBlueprint = blueprint @ promptSuffix
      in case opt_strategy options of
           incremental \<Rightarrow>
             (case incrementalEvolve create currentArtifact (patch @ promptSuffix) st of
                (Inl e, st') \<Rightarrow> (Inl (GenerationFailure e), st')
              | (Inr a, st') \<Rightarrow>
                  (Inr (a, metrics_of i (calculateDrift a level) 0 True None), st'))
         | repair \<Rightarrow>
             (case repairEvolve create currentArtifact (patch @ promptSuffix) st of
                (Inl e, st') \<Rightarrow> (Inl (GenerationFailure e), st')
              | (Inr result, st') \<Rightarrow>
                  (Inr (artifact result,
                        metrics_of i (calculateDrift (artifact result) level) (retries result)
                          (converged result) (Some (driftHistory result))), st'))
         | regeneration \<Rightarrow>
             (case regenerationEvolveSimple create effectiveBlueprint accumulatedPatches
                     (opt_atypicalityLevel options) st of
                (Inl e, st') \<Rightarrow> (Inl (GenerationFailure e), st')
              | (Inr result, st') \<Rightarrow>
                  (Inr (artifact result,
                        metrics_of i (finalScore result) 0 (converged result) None), st'))
         | regen_reconcile \<Rightarrow>
             (case regenerationEvolve create effectiveBlueprint accumulatedPatches
                     \<lparr>useRetries = Some False, atypicalityLevel = opt_atypicalityLevel options\<rparr> st of
                (Inl e, st') \<Rightarrow> (Inl (GenerationFailure e), st')
              | (Inr result, st') \<Rightarrow>
                  (Inr (artifact result,
                        metrics_of i (finalScore result) 0 (converged result) None), st'))
         | regen_full \<Rightarrow>
             (case regenerationEvolve create effectiveBlueprint accumulatedPatches
                     \<lparr>useRetries = Some True, atypicalityLevel = opt_atypicalityLevel options\<rparr> st of
                (Inl e, st') \<Rightarrow> (Inl (GenerationFailure e), st')
              | (Inr result, st') \<Rightarrow>
                  (Inr (artifact result,
                        metrics_of i (finalScore result) (retries result) (converged result)
                          (Some (driftHistory result))), st'))
         | other name \<Rightarrow> (Inl (UnknownStrategy name), st))"

text \<open>
  The loop of \<open>runExperiment\<close> over the patches still to apply, from iteration \<open>i\<close> on.
  \<open>saved\<close> lists what \<open>saveArtifact\<close> has been given: the iteration and the artifact.
\<close>

fun run_loop ::
  "('e, 'p) endpoint \<Rightarrow> EngineOptions \<Rightarrow> string \<Rightarrow> nat \<Rightarrow> string list \<Rightarrow> string list \<Rightarrow> string \<Rightarrow>
     IterationMetrics list \<Rightarrow> (nat \<times> string) list \<Rightarrow> 'p ClientState \<Rightarrow>
     ('e EngineError + IterationMetrics list \<times> (nat \<times> string) list) \<times> 'p ClientState" where
  "run_loop create options blueprint i [] accumulatedPatches currentArtifact ms saved st =
     (Inr (ms, saved), st)"
| "run_loop create options blueprint i (patch # rest) accumulatedPatches currentArtifact ms saved st =
     (case run_iteration create options blueprint i patch (accumulatedPatches @ [patch])
             currentArtifact st of
        (Inl e, st') \<Rightarrow> (Inl e, st')
      | (Inr (a, iterationMetrics), st') \<Rightarrow>
          run_loop create options blueprint (i + 1) rest (accumulatedPatches @ [patch]) a
            (ms @ [iterationMetrics]) (saved @ [(i, a)]) st')"

text \<open>\<open>runExperiment\<close>, given the blueprint and the patches it loads: iterations 1 to
  \<open>min(iterations, patches.length)\<close>.\<close>

definition runExperiment ::
  "('e, 'p) endpoint \<Rightarrow> EngineOptions \<Rightarrow> string \<Rightarrow> string list \<Rightarrow> 'p ClientState \<Rightarrow>
     ('e EngineError + RunMetrics \<times> (nat \<times> string) list) \<times> 'p ClientState" where
  "runExperiment create options blueprint patches st =
     (case run_loop create options blueprint 1
             (take (min (opt_iterations options) (length patches)) patches) [] blueprint [] [] st of
        (Inl e, st') \<Rightarrow> (Inl e, st')
      | (Inr (ms, saved), st') \<Rightarrow>
          (Inr (\<lparr>run_runId = opt_runId options, run_strategy = opt_strategy options,
                  run_iterations = ms\<rparr>, saved), st'))"

section \<open>Notions of the specification\<close>

text \<open>The number of positions of the text at which a term occurs, case-insensitively:
  the count the specification speaks of. Occurrences may overlap here.\<close>

fun occurrences :: "string \<Rightarrow> string \<Rightarrow> nat" where
  "occurrences t [] = 0"
| "occurrences t (c # cs) = (if matches_at_ci t (c # cs) then 1 else 0) + occurrences t cs"

text \<open>A term has a border when a proper non-empty suffix of it is, up to case, also a
  prefix of it; only then can two occurrences overlap.\<close>

definition borderless :: "string \<Rightarrow> bool" where
  "borderless t \<longleftrightarrow>
     t \<noteq> [] \<and>
     list_all (\<lambda>k. drop k (map toUpperCase t) \<noteq> take (length t - k) (map toUpperCase t))
       [1..<length t]"

text \<open>Two artifacts for the vocabulary validator: one with every term once, one with
  \<open>PKI\<close> twice and no \<open>MFA\<close>.\<close>

definition doc_each_once :: string where
  "doc_each_once = ''Zero Trust MFA Bastion Host RBAC Data At Rest Data In Transit Least Privilege Air Gap SLA Biometric Cryptographic Salt PKI Endpoint Telemetry SIEM SOC2 GDPR OIDC SAML Kill Chain Honeypot''"

definition doc_pki_twice :: string where
  "doc_pki_twice = ''Zero Trust Bastion Host RBAC Data At Rest Data In Transit Least Privilege Air Gap SLA Biometric Cryptographic Salt PKI Endpoint Telemetry SIEM SOC2 GDPR OIDC SAML Kill Chain Honeypot pki''"

text \<open>A word the third-character level rejects: it has a third character, and that
  character is a lowercase letter.\<close>

definition third_char_lowercase :: "string \<Rightarrow> bool" where
  "third_char_lowercase w \<longleftrightarrow> length w \<ge> 3 \<and> is_lower (w ! 2)"

text \<open>Artifacts for the style validator: one sentence of 26 words, one of 25 words, and
  a sentence of one word followed by one of 13.\<close>

definition doc_26_words :: string where
  "doc_26_words = ''a b c d e f g h i j k l m n o p q r s t u v w x y z.''"

definition doc_25_words :: string where
  "doc_25_words = ''a b c d e f g h i j k l m n o p q r s t u v w x y!''"

definition doc_half_short :: string where
  "doc_half_short = ''Stop. a b c d e f g h i j k l m?''"

text \<open>
  The whitespace-delimited words of a text are its maximal runs of characters that are
  not white space; \<open>count_word_starts\<close> counts the characters that begin such a run
  (\<open>in_word\<close> tells whether the previous character belongs to a word).
\<close>

primrec count_word_starts :: "bool \<Rightarrow> string \<Rightarrow> nat" where
  "count_word_starts in_word [] = 0"
| "count_word_starts in_word (c # cs) =
     (if is_space c then count_word_starts False cs
      else (if in_word then 0 else 1) + count_word_starts True cs)"

definition whitespace_delimited_words :: "string \<Rightarrow> nat" where
  "whitespace_delimited_words s = count_word_starts False s"

text \<open>
  The sentences of a text: the pieces between its terminal punctuation marks that are not
  blank and whose first character after leading white space is not the heading marker.
\<close>

primrec split_at_marks :: "(char \<Rightarrow> bool) \<Rightarrow> string \<Rightarrow> string list" where
  "split_at_marks P [] = [[]]"
| "split_at_marks P (c # cs) =
     (if P c then [] # split_at_marks P cs
      else (case split_at_marks P cs of [] \<Rightarrow> [[c]] | p # ps \<Rightarrow> (c # p) # ps))"

definition starts_with_heading_marker :: "string \<Rightarrow> bool" where
  "starts_with_heading_marker p \<longleftrightarrow>
     (case dropWhile is_space p of [] \<Rightarrow> False | c # r \<Rightarrow> c = CHR ''#'')"

definition text_sentences :: "string \<Rightarrow> string list" where
  "text_sentences text =
     filter (\<lambda>p. \<not> list_all is_space p \<and> \<not> starts_with_heading_marker p)
       (split_at_marks is_sentence_end text)"

text \<open>Two sentences, the second of 25 and of 26 words, and a heading before a sentence.\<close>

definition doc_25_after_stop :: string where
  "doc_25_after_stop = ''Stop. a b c d e f g h i j k l m n o p q r s t u v w x y.''"

definition doc_26_after_stop :: string where
  "doc_26_after_stop = ''Stop. a b c d e f g h i j k l m n o p q r s t u v w x y z.''"

definition doc_heading :: string where
  "doc_heading = ''# Scope. Keep it short.''"

text \<open>An artifact for the atypicality validator: seven of its nine words have a
  lowercase third character.\<close>

definition doc_third_letters :: string where
  "doc_third_letters = ''test teSt ab, tests tested: tester_1 __x testing Tesla''"

text \<open>The outcomes of the first \<open>n\<close> calls of the endpoint with one request, from the
  endpoint's state \<open>p\<close>, and the endpoint's state after them.\<close>

fun outcomes :: "('e, 'p) endpoint \<Rightarrow> ChatRequest \<Rightarrow> 'p \<Rightarrow> nat \<Rightarrow> ('e + ChatResponse) list" where
  "outcomes create req p 0 = []"
| "outcomes create req p (Suc n) =
     fst (create p req) # outcomes create req (snd (create p req)) n"

fun provider_after :: "('e, 'p) endpoint \<Rightarrow> ChatRequest \<Rightarrow> 'p \<Rightarrow> nat \<Rightarrow> 'p" where
  "provider_after create req p 0 = p"
| "provider_after create req p (Suc n) = provider_after create req (snd (create p req)) n"

text \<open>Two endpoints whose state counts their calls: one fails twice (throwing the call's
  number) and then answers, one always fails. And a client that has not been used.\<close>

definition flaky_endpoint :: "(nat, nat) endpoint" where
  "flaky_endpoint p req =
     (if p < 2 then Inl p
      else Inr \<lparr>content = Some ''ok'', prompt_tokens = Some 7, completion_tokens = None\<rparr>,
      p + 1)"

definition failing_endpoint :: "(nat, nat) endpoint" where
  "failing_endpoint p req = (Inl p, p + 1)"

definition fresh_client :: "nat ClientState" where
  "fresh_client =
     \<lparr>provider = 0, totalCalls = 0, totalInputTokens = 0, totalOutputTokens = 0, slept = []\<rparr>"

text \<open>An endpoint that answers every request with the text \<open>t\<close>; one such endpoint,
  whose state counts its calls; and an endpoint that answers its \<open>k\<close>-th call with the
  \<open>k\<close>-th text of a list and fails after the last.\<close>

definition always_returns :: "('e, 'p) endpoint \<Rightarrow> string \<Rightarrow> bool" where
  "always_returns create t \<longleftrightarrow>
     (\<forall>p req. \<exists>response p'. create p req = (Inr response, p') \<and> content response = Some t)"

definition constant_endpoint :: "string \<Rightarrow> (nat, nat) endpoint" where
  "constant_endpoint t p req =
     (Inr \<lparr>content = Some t, prompt_tokens = None, completion_tokens = None\<rparr>, p + 1)"

definition scripted_endpoint :: "string list \<Rightarrow> (nat, nat) endpoint" where
  "scripted_endpoint texts p req =
     (if p < length texts
      then Inr \<lparr>content = Some (texts ! p), prompt_tokens = None, completion_tokens = None\<rparr>
      else Inl p,
      p + 1)"

text \<open>Four artifacts without headings, references or sentence punctuation, which hold
  15, 18, 13 and 18 of the vocabulary terms once each, and a script for the endpoint: the
  reconciled requirements, then the four artifacts.\<close>

definition draft_score_5 :: string where
  "draft_score_5 = ''Zero Trust,MFA,RBAC,Data At Rest,Air Gap,SLA,Biometric,PKI,SIEM,SOC2,GDPR,OIDC,SAML,Kill Chain,Honeypot''"

definition draft_score_2 :: string where
  "draft_score_2 = ''Zero Trust,MFA,Bastion Host,RBAC,Data At Rest,Data In Transit,Least Privilege,Air Gap,SLA,Biometric,PKI,SIEM,SOC2,GDPR,OIDC,SAML,Kill Chain,Honeypot''"

definition draft_score_7 :: string where
  "draft_score_7 = ''MFA,RBAC,Air Gap,SLA,Biometric,PKI,SIEM,SOC2,GDPR,OIDC,SAML,Kill Chain,Honeypot''"

definition draft_score_2_again :: string where
  "draft_score_2_again = ''Zero Trust,MFA,Bastion Host,RBAC,Data At Rest,Air Gap,SLA,Biometric,Cryptographic Salt,PKI,Endpoint Telemetry,SIEM,SOC2,GDPR,OIDC,SAML,Kill Chain,Honeypot''"

definition four_drafts :: "string list" where
  "four_drafts =
     [''1. Add a section'', draft_score_5, draft_score_2, draft_score_7, draft_score_2_again]"

text \<open>An artifact that holds every vocabulary term once, in one sentence of 12 words.\<close>

definition draft_score_0 :: string where
  "draft_score_0 = ''Zero Trust,MFA,Bastion Host,RBAC,Data At Rest,Data In Transit,Least Privilege,Air Gap,SLA,Biometric,Cryptographic Salt,PKI,Endpoint Telemetry,SIEM,SOC2,GDPR,OIDC,SAML,Kill Chain,Honeypot''"

text \<open>The numbers of the headings the template validator's pattern matches (the pattern
  captures the title only; the number is the digits it matches before the period).\<close>

definition template_section_numbers :: "string \<Rightarrow> string list" where
  "template_section_numbers text = map (\<lambda>(i, ds, title). ds) (template_headings text)"

text \<open>The results of a heading matcher at every line start of a text, whether or not a
  scan from the left would reach that line start.\<close>

fun line_start_matches :: "(string \<Rightarrow> ('a \<times> nat) option) \<Rightarrow> bool \<Rightarrow> string \<Rightarrow> 'a set" where
  "line_start_matches m bol [] = {}"
| "line_start_matches m bol (c # cs) =
     (if bol then (case m (c # cs) of Some (a, n) \<Rightarrow> {a} | None \<Rightarrow> {}) else {}) \<union>
     line_start_matches m (is_line_terminator c) cs"

text \<open>Two artifacts with headings: one heading with a dotted number, and three headings
  of which the second has a dotted number.\<close>

definition doc_dotted_heading :: string where
  "doc_dotted_heading = ''## 1.2. Access''"

definition doc_three_headings :: string where
  "doc_three_headings = ''# 1. Intro\<newline>## 2.1. Sub\<newline>## 3. Scope\<newline>See Section 2.1''"

section \<open>Evaluating the character classes\<close>

lemma is_lower_Char:
  "is_lower (Char b0 b1 b2 b3 b4 b5 b6 b7) \<longleftrightarrow>
     \<not> b7 \<and> b6 \<and> b5 \<and> (b0 \<or> b1 \<or> b2 \<or> b3 \<or> b4) \<and> \<not> (b4 \<and> b3 \<and> (b2 \<or> (b1 \<and> b0)))"
  by (cases b0; cases b1; cases b2; cases b3; cases b4; cases b5; cases b6; cases b7;
      simp add: is_lower_def)

lemma toUpperCase_Char:
  "toUpperCase (Char b0 b1 b2 b3 b4 b5 b6 b7) =
     Char b0 b1 b2 b3 b4 (b5 \<and> \<not> is_lower (Char b0 b1 b2 b3 b4 b5 b6 b7)) b6 b7"
  by (simp add: toUpperCase_def is_lower_Char)

lemma toUpperCase_alphabet:
  "map toUpperCase ''abcdefghijklmnopqrstuvwxyz'' = ''ABCDEFGHIJKLMNOPQRSTUVWXYZ''"
  by (simp add: toUpperCase_Char is_lower_Char)

lemma is_upper_Char:
  "is_upper (Char b0 b1 b2 b3 b4 b5 b6 b7) \<longleftrightarrow>
     \<not> b7 \<and> b6 \<and> \<not> b5 \<and> (b0 \<or> b1 \<or> b2 \<or> b3 \<or> b4) \<and> \<not> (b4 \<and> b3 \<and> (b2 \<or> (b1 \<and> b0)))"
  by (cases b0; cases b1; cases b2; cases b3; cases b4; cases b5; cases b6; cases b7;
      simp add: is_upper_def)

lemma is_digit_Char:
  "is_digit (Char b0 b1 b2 b3 b4 b5 b6 b7) \<longleftrightarrow>
     \<not> b7 \<and> \<not> b6 \<and> b5 \<and> b4 \<and> \<not> (b3 \<and> (b2 \<or> b1))"
  by (cases b0; cases b1; cases b2; cases b3; cases b4; cases b5; cases b6; cases b7;
      simp add: is_digit_def)

lemma is_space_Char:
  "is_space (Char b0 b1 b2 b3 b4 b5 b6 b7) \<longleftrightarrow>
     (\<not> b7 \<and> \<not> b6 \<and> \<not> b5 \<and> \<not> b4 \<and> b3 \<and> (\<not> b2 \<and> (b1 \<or> b0) \<or> b2 \<and> \<not> b1)) \<or>
     (\<not> b6 \<and> b5 \<and> \<not> b4 \<and> \<not> b3 \<and> \<not> b2 \<and> \<not> b1 \<and> \<not> b0)"
  by (cases b0; cases b1; cases b2; cases b3; cases b4; cases b5; cases b6; cases b7;
      simp add: is_space_def)

lemmas eval_occurrences =
  occurrences.simps matches_at_ci.simps toUpperCase_Char is_lower_Char char.inject
  if_True if_False simp_thms add_0 add_0_right

section \<open>The vocabulary validator counts occurrences\<close>

lemma matches_at_ci_iff:
  "matches_at_ci t s \<longleftrightarrow>
     length t \<le> length s \<and> map toUpperCase (take (length t) s) = map toUpperCase t"
  by (induction t s rule: matches_at_ci.induct) auto

lemma overlap_border:
  assumes "matches_at_ci t s" and "matches_at_ci t (drop k s)" and "k < length t"
  shows "drop k (map toUpperCase t) = take (length t - k) (map toUpperCase t)"
proof -
  let ?n = "length t"
  from assms(1) have a: "map toUpperCase (take ?n s) = map toUpperCase t"
    by (simp add: matches_at_ci_iff)
  from assms(2) have b: "map toUpperCase (take ?n (drop k s)) = map toUpperCase t"
    by (simp add: matches_at_ci_iff)
  have "drop k (map toUpperCase t) = map toUpperCase (drop k (take ?n s))"
    using a by (simp add: drop_map [symmetric] del: drop_map)
  also have "drop k (take ?n s) = take (?n - k) (drop k s)"
    by (simp add: drop_take)
  also have "\<dots> = take (?n - k) (take ?n (drop k s))"
    by (simp add: min_def)
  also have "map toUpperCase \<dots> = take (?n - k) (map toUpperCase t)"
    using arg_cong [OF b, of "take (?n - k)"] by (simp add: take_map)
  finally show ?thesis .
qed

lemma borderless_no_overlap:
  assumes "borderless t" and "matches_at_ci t s" and "0 < k" and "k < length t"
  shows "\<not> matches_at_ci t (drop k s)"
proof
  assume "matches_at_ci t (drop k s)"
  with assms have "drop k (map toUpperCase t) = take (length t - k) (map toUpperCase t)"
    by (simp add: overlap_border)
  moreover from assms have "drop k (map toUpperCase t) \<noteq> take (length t - k) (map toUpperCase t)"
    by (auto simp: borderless_def list_all_iff)
  ultimately show False by simp
qed

lemma occurrences_drop:
  "(\<And>k. k < m \<Longrightarrow> \<not> matches_at_ci t (drop k s)) \<Longrightarrow> occurrences t (drop m s) = occurrences t s"
proof (induction m arbitrary: s)
  case 0
  then show ?case by simp
next
  case (Suc m)
  show ?case
  proof (cases s)
    case Nil
    then show ?thesis by simp
  next
    case (Cons c cs)
    from Suc.prems [of 0] Cons have "\<not> matches_at_ci t (c # cs)" by simp
    moreover have "occurrences t (drop m cs) = occurrences t cs"
    proof (rule Suc.IH)
      fix k assume "k < m"
      with Suc.prems [of "Suc k"] Cons show "\<not> matches_at_ci t (drop k cs)" by simp
    qed
    ultimately show ?thesis using Cons by simp
  qed
qed

lemma count_matches_occurrences:
  "borderless t \<Longrightarrow> count_matches t s = occurrences t s"
proof (induction t s rule: count_matches.induct)
  case (1 t)
  then show ?case by simp
next
  case (2 t c cs)
  show ?case
  proof (cases "matches_at_ci t (c # cs)")
    case True
    have "occurrences t (drop (length t - 1) cs) = occurrences t cs"
    proof (rule occurrences_drop)
      fix k assume "k < length t - 1"
      then have "\<not> matches_at_ci t (drop (Suc k) (c # cs))"
        using borderless_no_overlap [OF "2.prems" True, of "Suc k"] by simp
      then show "\<not> matches_at_ci t (drop k cs)" by simp
    qed
    with True 2 show ?thesis by simp
  next
    case False
    with 2 show ?thesis by simp
  qed
qed

lemma VOCABULARY_borderless: "list_all borderless VOCABULARY"
  by (simp add: VOCABULARY_def borderless_def toUpperCase_Char is_lower_Char upt_conv_Cons)

lemma violations_foldl_vocabulary_step:
  "violations (foldl (vocabulary_step text) acc ts) =
     violations acc + (\<Sum>t\<leftarrow>ts. nat \<bar>int (count_matches t text) - 1\<bar>)"
  by (induction ts arbitrary: acc) (auto simp: vocabulary_step_def Let_def)

lemma validateVocabulary_count_matches:
  "violations (validateVocabulary text) =
     (\<Sum>t\<leftarrow>VOCABULARY. nat \<bar>int (count_matches t text) - 1\<bar>)"
  by (simp add: validateVocabulary_def violations_foldl_vocabulary_step)

lemma validateVocabulary_occurrences:
  "violations (validateVocabulary text) =
     (\<Sum>t\<leftarrow>VOCABULARY. nat \<bar>int (occurrences t text) - 1\<bar>)"
proof -
  have "map (\<lambda>t. nat \<bar>int (count_matches t text) - 1\<bar>) VOCABULARY =
        map (\<lambda>t. nat \<bar>int (occurrences t text) - 1\<bar>) VOCABULARY"
    using VOCABULARY_borderless
    by (intro map_cong refl) (simp add: list_all_iff count_matches_occurrences)
  then show ?thesis unfolding validateVocabulary_count_matches by (rule arg_cong)
qed

text \<open>
  C5. For every text, the vocabulary validator's violations are the sum, over the 20
  terms of the controlled vocabulary, of \<open>abs(count - 1)\<close>, where \<open>count\<close> is the number
  of case-insensitive substring occurrences of the term. A text with \<open>PKI\<close> twice, no
  \<open>MFA\<close> and each of the other 18 terms once has exactly 2 violations; a text with
  every term exactly once has none.
\<close>

theorem validateVocabulary_violations:
  "violations (validateVocabulary text) =
     (\<Sum>t\<leftarrow>VOCABULARY. nat \<bar>int (occurrences t text) - 1\<bar>) \<and>
   length VOCABULARY = 20 \<and>
   (occurrences ''PKI'' text = 2 \<and> occurrences ''MFA'' text = 0 \<and>
    (\<forall>t \<in> set VOCABULARY - {''PKI'', ''MFA''}. occurrences t text = 1) \<longrightarrow>
      violations (validateVocabulary text) = 2) \<and>
   ((\<forall>t \<in> set VOCABULARY. occurrences t text = 1) \<longrightarrow>
      violations (validateVocabulary text) = 0)"
proof (intro conjI impI)
  show "violations (validateVocabulary text) =
      (\<Sum>t\<leftarrow>VOCABULARY. nat \<bar>int (occurrences t text) - 1\<bar>)"
    by (rule validateVocabulary_occurrences)
  show "length VOCABULARY = 20"
    by (simp add: VOCABULARY_def)
next
  assume "occurrences ''PKI'' text = 2 \<and> occurrences ''MFA'' text = 0 \<and>
    (\<forall>t \<in> set VOCABULARY - {''PKI'', ''MFA''}. occurrences t text = 1)"
  then show "violations (validateVocabulary text) = 2"
    by (simp add: validateVocabulary_occurrences VOCABULARY_def)
next
  assume "\<forall>t \<in> set VOCABULARY. occurrences t text = 1"
  then show "violations (validateVocabulary text) = 0"
    by (simp add: validateVocabulary_occurrences VOCABULARY_def)
qed

lemma occurrences_doc_each_once:
  "occurrences ''Zero Trust'' doc_each_once = 1"
  "occurrences ''MFA'' doc_each_once = 1"
  "occurrences ''Bastion Host'' doc_each_once = 1"
  "occurrences ''RBAC'' doc_each_once = 1"
  "occurrences ''Data At Rest'' doc_each_once = 1"
  "occurrences ''Data In Transit'' doc_each_once = 1"
  "occurrences ''Least Privilege'' doc_each_once = 1"
  "occurrences ''Air Gap'' doc_each_once = 1"
  "occurrences ''SLA'' doc_each_once = 1"
  "occurrences ''Biometric'' doc_each_once = 1"
  "occurrences ''Cryptographic Salt'' doc_each_once = 1"
  "occurrences ''PKI'' doc_each_once = 1"
  "occurrences ''Endpoint Telemetry'' doc_each_once = 1"
  "occurrences ''SIEM'' doc_each_once = 1"
  "occurrences ''SOC2'' doc_each_once = 1"
  "occurrences ''GDPR'' doc_each_once = 1"
  "occurrences ''OIDC'' doc_each_once = 1"
  "occurrences ''SAML'' doc_each_once = 1"
  "occurrences ''Kill Chain'' doc_each_once = 1"
  "occurrences ''Honeypot'' doc_each_once = 1"
  by (simp_all only: doc_each_once_def eval_occurrences)

lemma occurrences_doc_pki_twice:
  "occurrences ''Zero Trust'' doc_pki_twice = 1"
  "occurrences ''MFA'' doc_pki_twice = 0"
  "occurrences ''Bastion Host'' doc_pki_twice = 1"
  "occurrences ''RBAC'' doc_pki_twice = 1"
  "occurrences ''Data At Rest'' doc_pki_twice = 1"
  "occurrences ''Data In Transit'' doc_pki_twice = 1"
  "occurrences ''Least Privilege'' doc_pki_twice = 1"
  "occurrences ''Air Gap'' doc_pki_twice = 1"
  "occurrences ''SLA'' doc_pki_twice = 1"
  "occurrences ''Biometric'' doc_pki_twice = 1"
  "occurrences ''Cryptographic Salt'' doc_pki_twice = 1"
  "occurrences ''PKI'' doc_pki_twice = 2"
  "occurrences ''Endpoint Telemetry'' doc_pki_twice = 1"
  "occurrences ''SIEM'' doc_pki_twice = 1"
  "occurrences ''SOC2'' doc_pki_twice = 1"
  "occurrences ''GDPR'' doc_pki_twice = 1"
  "occurrences ''OIDC'' doc_pki_twice = 1"
  "occurrences ''SAML'' doc_pki_twice = 1"
  "occurrences ''Kill Chain'' doc_pki_twice = 1"
  "occurrences ''Honeypot'' doc_pki_twice = 1"
  by (simp_all only: doc_pki_twice_def eval_occurrences one_add_one)

theorem validateVocabulary_violations_witness:
  "occurrences ''PKI'' doc_pki_twice = 2 \<and> occurrences ''MFA'' doc_pki_twice = 0 \<and>
   violations (validateVocabulary doc_pki_twice) = 2 \<and>
   occurrences ''PKI'' doc_each_once = 1 \<and> occurrences ''MFA'' doc_each_once = 1 \<and>
   violations (validateVocabulary doc_each_once) = 0"
proof -
  have a: "\<forall>t \<in> set VOCABULARY - {''PKI'', ''MFA''}. occurrences t doc_pki_twice = 1"
    unfolding VOCABULARY_def
    by (simp add: insert_Diff_if occurrences_doc_pki_twice)
  have b: "\<forall>t \<in> set VOCABULARY. occurrences t doc_each_once = 1"
    by (simp add: VOCABULARY_def occurrences_doc_each_once)
  from a b show ?thesis
    using validateVocabulary_violations [of doc_pki_twice]
      validateVocabulary_violations [of doc_each_once]
    by (simp add: occurrences_doc_pki_twice occurrences_doc_each_once)
qed

section \<open>The empty artifact\<close>

lemma validateVocabulary_empty:
  "validateVocabulary [] =
     \<lparr>violations = 20,
      details = map (\<lambda>t. \<lparr>vd_term = t, vd_count = 0, vd_expected = 1\<rparr>) VOCABULARY\<rparr>"
  by (simp add: validateVocabulary_def VOCABULARY_def vocabulary_step_def)

lemma validateTemplate_empty: "validateTemplate [] = \<lparr>violations = 0, details = []\<rparr>"
  by (simp add: validateTemplate_def parse_sections_def template_headings_def)

lemma validateStyle_empty:
  "validateStyle [] =
     \<lparr>violations = 0, details = [], totalSentences = 0, longSentences = 0, shortRatio = 1\<rparr>"
  by (simp add: validateStyle_def sentences_of_def split_runs.simps trim_def SHORT_RATIO_TARGET_def)

lemma validateCrossRefs_empty: "validateCrossRefs [] = \<lparr>violations = 0, details = []\<rparr>"
  by (simp add: validateCrossRefs_def existing_sections_def)

text \<open>
  C10. Scoring the empty artifact at the default level (\<open>low\<close>) gives a total of exactly
  20: the vocabulary validator counts one violation for each of the 20 terms, all
  missing, and the template, style, cross-reference and atypicality validators count
  none.
\<close>

theorem empty_artifact_drift:
  "total (calculateDrift [] low) = 20 \<and>
   violations (vocabulary (calculateDrift [] low)) = 20 \<and>
   details (vocabulary (calculateDrift [] low)) =
     map (\<lambda>t. \<lparr>vd_term = t, vd_count = 0, vd_expected = 1\<rparr>) VOCABULARY \<and>
   length VOCABULARY = 20 \<and>
   violations (template (calculateDrift [] low)) = 0 \<and>
   violations (style (calculateDrift [] low)) = 0 \<and>
   violations (crossRefs (calculateDrift [] low)) = 0 \<and>
   violations (atypicality (calculateDrift [] low)) = 0"
  by (simp add: calculateDrift_def validateVocabulary_empty validateTemplate_empty
      validateStyle_empty validateCrossRefs_empty validateAtypicality_def)
     (simp add: VOCABULARY_def)

section \<open>The style validator\<close>

lemma foldl_style_step:
  "foldl style_step (l, s, ds) S =
     (l + length (filter (\<lambda>x. wordCount x > MAX_WORDS) S),
      s + length (filter (\<lambda>x. wordCount x \<le> SHORT_THRESHOLD) S),
      ds @ map (\<lambda>x. \<lparr>sd_sentence = slice x 0 50 @ ''...'', sd_wordCount = wordCount x\<rparr>)
             (filter (\<lambda>x. wordCount x > MAX_WORDS) S))"
proof (induction S arbitrary: l s ds)
  case Nil
  then show ?case by simp
next
  case (Cons x S)
  have "style_step (l, s, ds) x =
      (if wordCount x > MAX_WORDS then l + 1 else l,
       if wordCount x \<le> SHORT_THRESHOLD then s + 1 else s,
       if wordCount x > MAX_WORDS
       then ds @ [\<lparr>sd_sentence = slice x 0 50 @ ''...'', sd_wordCount = wordCount x\<rparr>] else ds)"
    by (simp add: style_step_def Let_def)
  then show ?case
    by (simp only: foldl_Cons Cons.IH) simp
qed

subsection \<open>Sentences are trimmed\<close>

lemma trim_trimmed:
  assumes "trim s \<noteq> []"
  shows "\<not> is_space (hd (trim s))" and "\<not> is_space (last (trim s))"
proof -
  let ?t = "dropWhile is_space s"
  let ?u = "dropWhile is_space (rev ?t)"
  from assms have u: "?u \<noteq> []" by (simp add: trim_def)
  have "?t = [] \<Longrightarrow> ?u = []" by (simp only: rev.simps dropWhile.simps)
  with u have t: "?t \<noteq> []" by blast
  have "last (trim s) = hd ?u" by (simp only: trim_def last_rev)
  then show "\<not> is_space (last (trim s))" using u hd_dropWhile [of is_space "rev ?t"] by simp
  obtain v where "rev ?t = v @ ?u"
    by (metis takeWhile_dropWhile_id)
  then have "last (rev ?t) = last ?u" using u by (metis last_appendR)
  moreover have "hd (trim s) = last ?u" by (simp only: trim_def hd_rev)
  moreover have "last (rev ?t) = hd ?t" by (rule last_rev)
  ultimately have "hd (trim s) = hd ?t" by simp
  then show "\<not> is_space (hd (trim s))" using t hd_dropWhile [of is_space s] by simp
qed

lemma trim_subset: "set (trim s) \<subseteq> set s"
  unfolding trim_def by (metis set_rev set_dropWhileD subsetI)

lemma split_runs_free:
  "p \<in> set (split_runs P s) \<Longrightarrow> c \<in> set p \<Longrightarrow> \<not> P c"
proof (induction P s rule: split_runs.induct)
  case (1 P s)
  show ?case
  proof (cases "dropWhile (\<lambda>c. \<not> P c) s")
    case Nil
    then have "\<forall>x \<in> set s. \<not> P x" by (simp add: dropWhile_eq_Nil_conv)
    moreover have "split_runs P s = [s]"
      by (subst split_runs.simps) (simp only: Nil list.case)
    with "1.prems"(1) have "p = s" by simp
    ultimately show ?thesis using "1.prems"(2) by simp
  next
    case (Cons d r)
    have "split_runs P s = takeWhile (\<lambda>c. \<not> P c) s # split_runs P (dropWhile P r)"
      by (subst split_runs.simps) (simp only: Cons list.case)
    with "1.prems"(1) have "p = takeWhile (\<lambda>c. \<not> P c) s \<or> p \<in> set (split_runs P (dropWhile P r))"
      by simp
    then show ?thesis
    proof
      assume "p = takeWhile (\<lambda>c. \<not> P c) s"
      with "1.prems"(2) show ?thesis by (auto dest: set_takeWhileD)
    next
      assume "p \<in> set (split_runs P (dropWhile P r))"
      then show ?thesis using "1.IH" [OF Cons] "1.prems"(2) by simp
    qed
  qed
qed

lemma sentences_of_shape:
  assumes "s \<in> set (sentences_of text)"
  shows "s \<noteq> []" and "\<not> is_space (hd s)" and "\<not> is_space (last s)"
    and "\<forall>c \<in> set s. \<not> is_sentence_end c" and "hd s \<noteq> CHR ''#''"
proof -
  from assms obtain p where p: "p \<in> set (split_runs is_sentence_end text)" and s: "s = trim p"
    and ne: "s \<noteq> []" and h: "\<not> startsWith s ''#''"
    by (auto simp: sentences_of_def)
  show "s \<noteq> []" by (rule ne)
  show "\<not> is_space (hd s)" "\<not> is_space (last s)" using trim_trimmed [of p] ne s by simp_all
  show "\<forall>c \<in> set s. \<not> is_sentence_end c"
    using split_runs_free [OF p] trim_subset [of p] s by blast
  show "hd s \<noteq> CHR ''#''" using h ne by (cases s) (simp_all add: startsWith_def)
qed

subsection \<open>Counting the words of a trimmed sentence\<close>

lemma count_word_starts_no_space:
  "\<forall>c \<in> set u. \<not> is_space c \<Longrightarrow>
   count_word_starts b (u @ v) =
     (if u = [] then count_word_starts b v
      else (if b then 0 else 1) + count_word_starts True v)"
  by (induction u arbitrary: b) auto

lemma count_word_starts_space:
  "is_space c \<Longrightarrow> count_word_starts b (c # r) = count_word_starts False (dropWhile is_space r)"
  by (induction r) simp_all

lemma length_split_runs:
  "s \<noteq> [] \<Longrightarrow>
   length (split_runs is_space s) =
     count_word_starts False s + (if is_space (hd s) then 1 else 0) +
     (if is_space (last s) then 1 else 0)"
proof (induction "is_space" s rule: split_runs.induct)
  case (1 s)
  let ?u = "takeWhile (\<lambda>c. \<not> is_space c) s"
  have u: "\<forall>c \<in> set ?u. \<not> is_space c" by (auto dest: set_takeWhileD)
  show ?case
  proof (cases "dropWhile (\<lambda>c. \<not> is_space c) s")
    case Nil
    then have all: "\<forall>x \<in> set s. \<not> is_space x" by (simp add: dropWhile_eq_Nil_conv)
    with "1.prems" have "\<not> is_space (hd s)" "\<not> is_space (last s)" by simp_all
    moreover have "count_word_starts False s = 1"
      using count_word_starts_no_space [of s False "[]"] all "1.prems" by simp
    moreover have "split_runs is_space s = [s]"
      by (subst split_runs.simps) (simp only: Nil list.case)
    ultimately show ?thesis by simp
  next
    case (Cons d r)
    then have d: "is_space d" by (metis hd_dropWhile list.sel(1) list.distinct(1))
    have s: "s = ?u @ d # r" using Cons by (metis takeWhile_dropWhile_id)
    let ?t = "dropWhile is_space r"
    have "split_runs is_space s = ?u # split_runs is_space ?t"
      by (subst split_runs.simps) (simp only: Cons list.case)
    then have len: "length (split_runs is_space s) = Suc (length (split_runs is_space ?t))"
      by simp
    have cnt: "count_word_starts False s =
        (if ?u = [] then 0 else 1) + count_word_starts False ?t"
      using count_word_starts_no_space [OF u, of False "d # r"] count_word_starts_space [OF d]
      by (subst s) simp
    have hd_s: "is_space (hd s) \<longleftrightarrow> ?u = []"
    proof (cases ?u)
      case Nil
      then show ?thesis using s d by (metis append_Nil list.sel(1))
    next
      case (Cons a u')
      then have "hd s = a" using s by (metis hd_append2 list.sel(1) list.distinct(1))
      moreover have "\<not> is_space a" using u Cons by simp
      ultimately show ?thesis using Cons by simp
    qed
    show ?thesis
    proof (cases "?t = []")
      case True
      then have "\<forall>x \<in> set r. is_space x" by (simp add: dropWhile_eq_Nil_conv)
      then have "is_space (last (d # r))" using d by (cases r) auto
      then have l: "is_space (last s)" by (subst s) simp
      have "split_runs is_space [] = [[]]" by (subst split_runs.simps) simp
      then have "length (split_runs is_space ?t) = 1" by (simp only: True) simp
      moreover have "count_word_starts False ?t = 0" by (simp only: True count_word_starts.simps)
      ultimately show ?thesis using l by (simp only: len cnt hd_s) simp
    next
      case False
      obtain w where "r = w @ ?t" by (metis takeWhile_dropWhile_id)
      then have "s = (?u @ d # w) @ ?t" using s by simp
      then have "last s = last ?t" using False by (metis last_appendR)
      moreover have "\<not> is_space (hd ?t)" using False hd_dropWhile [of is_space r] by simp
      ultimately show ?thesis
        using "1.hyps" [OF Cons False] len cnt hd_s by simp
    qed
  qed
qed

lemma wordCount_trimmed:
  "s \<noteq> [] \<Longrightarrow> \<not> is_space (hd s) \<Longrightarrow> \<not> is_space (last s) \<Longrightarrow>
   wordCount s = whitespace_delimited_words s"
  by (simp add: wordCount_def whitespace_delimited_words_def length_split_runs)

lemma wordCount_sentence:
  "s \<in> set (sentences_of text) \<Longrightarrow> wordCount s = whitespace_delimited_words s"
  by (intro wordCount_trimmed sentences_of_shape)

subsection \<open>The sentences of a text\<close>

lemma split_at_marks_not_Nil: "split_at_marks P s \<noteq> []"
  by (induction s) (simp_all split: list.splits)

lemma split_at_marks_free:
  "\<forall>c \<in> set u. \<not> P c \<Longrightarrow>
   split_at_marks P (u @ v) = (u @ hd (split_at_marks P v)) # tl (split_at_marks P v)"
  using split_at_marks_not_Nil [of P v] by (induction u) (simp_all split: list.splits)

lemma split_at_marks_dropWhile:
  "filter (\<lambda>p. p \<noteq> []) (split_at_marks P (dropWhile P r)) =
   filter (\<lambda>p. p \<noteq> []) (split_at_marks P r)"
  by (induction r) simp_all

lemma split_runs_split_at_marks:
  "filter (\<lambda>p. p \<noteq> []) (split_runs P s) = filter (\<lambda>p. p \<noteq> []) (split_at_marks P s)"
proof (induction P s rule: split_runs.induct)
  case (1 P s)
  let ?u = "takeWhile (\<lambda>c. \<not> P c) s"
  have u: "\<forall>c \<in> set ?u. \<not> P c" by (auto dest: set_takeWhileD)
  show ?case
  proof (cases "dropWhile (\<lambda>c. \<not> P c) s")
    case Nil
    then have all: "\<forall>x \<in> set s. \<not> P x" by (simp add: dropWhile_eq_Nil_conv)
    have "split_runs P s = [s]"
      by (subst split_runs.simps) (simp only: Nil list.case)
    moreover have "split_at_marks P s = [s]"
      using split_at_marks_free [OF all, of "[]"] by simp
    ultimately show ?thesis by simp
  next
    case (Cons d r)
    then have d: "P d" by (metis hd_dropWhile list.sel(1) list.distinct(1))
    have s: "s = ?u @ d # r" using Cons by (metis takeWhile_dropWhile_id)
    have "split_runs P s = ?u # split_runs P (dropWhile P r)"
      by (subst split_runs.simps) (simp only: Cons list.case)
    moreover have "split_at_marks P (?u @ d # r) = ?u # split_at_marks P r"
      using split_at_marks_free [OF u, of "d # r"] d by simp
    then have "split_at_marks P s = ?u # split_at_marks P r" using s by simp
    ultimately show ?thesis
      using "1.IH" [OF Cons] split_at_marks_dropWhile [of P r] by simp
  qed
qed

lemma trim_eq_Nil: "trim p = [] \<longleftrightarrow> list_all is_space p"
proof
  assume "list_all is_space p"
  then have "dropWhile is_space p = []" by (simp add: list_all_iff)
  then show "trim p = []" by (simp only: trim_def rev.simps dropWhile.simps)
next
  assume t: "trim p = []"
  let ?t = "dropWhile is_space p"
  from t have "\<forall>x \<in> set ?t. is_space x" by (simp add: trim_def)
  moreover have "?t \<noteq> [] \<Longrightarrow> \<not> is_space (hd ?t)" by (rule hd_dropWhile)
  ultimately have "?t = []" by (cases ?t) auto
  then show "list_all is_space p" by (simp add: list_all_iff)
qed

lemma hd_trim: "trim p \<noteq> [] \<Longrightarrow> hd (trim p) = hd (dropWhile is_space p)"
proof -
  let ?t = "dropWhile is_space p"
  let ?u = "dropWhile is_space (rev ?t)"
  assume "trim p \<noteq> []"
  then have u: "?u \<noteq> []" by (simp add: trim_def)
  obtain v where "rev ?t = v @ ?u"
    by (metis takeWhile_dropWhile_id)
  then have "last (rev ?t) = last ?u" using u by (metis last_appendR)
  moreover have "hd (trim p) = last ?u" by (simp only: trim_def hd_rev)
  moreover have "last (rev ?t) = hd ?t" by (rule last_rev)
  ultimately show ?thesis by simp
qed

lemma startsWith_hash: "s \<noteq> [] \<Longrightarrow> startsWith s ''#'' \<longleftrightarrow> hd s = CHR ''#''"
  by (cases s) (simp_all add: startsWith_def)

lemma kept_sentence:
  "length (trim p) > 0 \<and> \<not> startsWith (trim p) ''#'' \<longleftrightarrow>
   \<not> list_all is_space p \<and> \<not> starts_with_heading_marker p"
proof (cases "trim p = []")
  case True
  then show ?thesis using trim_eq_Nil [of p] by simp
next
  case False
  then have b: "\<not> list_all is_space p" by (simp add: trim_eq_Nil)
  then have "dropWhile is_space p \<noteq> []" by (simp add: list_all_iff)
  then have "starts_with_heading_marker p \<longleftrightarrow> hd (dropWhile is_space p) = CHR ''#''"
    by (cases "dropWhile is_space p") (simp_all add: starts_with_heading_marker_def)
  then show ?thesis using False b by (simp add: startsWith_hash hd_trim)
qed

lemma sentences_of_text_sentences:
  "sentences_of text = map trim (text_sentences text)"
proof -
  let ?Q = "\<lambda>p. \<not> list_all is_space p \<and> \<not> starts_with_heading_marker p"
  have q: "?Q p \<Longrightarrow> p \<noteq> []" for p by auto
  have "sentences_of text = map trim (filter ?Q (split_runs is_sentence_end text))"
    by (simp add: sentences_of_def filter_map o_def kept_sentence del: length_greater_0_conv)
  also have "filter ?Q (split_runs is_sentence_end text) =
      filter ?Q (filter (\<lambda>p. p \<noteq> []) (split_runs is_sentence_end text))"
    using q by (auto intro: filter_cong)
  also have "\<dots> = filter ?Q (filter (\<lambda>p. p \<noteq> []) (split_at_marks is_sentence_end text))"
    by (simp only: split_runs_split_at_marks)
  also have "\<dots> = filter ?Q (split_at_marks is_sentence_end text)"
    using q by (auto intro: filter_cong)
  finally show ?thesis by (simp add: text_sentences_def)
qed

subsection \<open>Trimming keeps the words\<close>

lemma count_word_starts_dropWhile:
  "count_word_starts False (dropWhile is_space p) = count_word_starts False p"
  by (induction p) simp_all

lemma count_word_starts_spaces:
  "\<forall>c \<in> set w. is_space c \<Longrightarrow> count_word_starts b w = 0"
  by (induction w arbitrary: b) simp_all

lemma count_word_starts_trailing:
  "\<forall>c \<in> set w. is_space c \<Longrightarrow> count_word_starts b (k @ w) = count_word_starts b k"
  by (induction k arbitrary: b) (simp_all add: count_word_starts_spaces)

lemma whitespace_delimited_words_trim:
  "whitespace_delimited_words (trim p) = whitespace_delimited_words p"
proof -
  let ?t = "dropWhile is_space p"
  let ?w = "takeWhile is_space (rev ?t)"
  have "?t = rev (?w @ dropWhile is_space (rev ?t))"
    by (metis rev_rev_ident takeWhile_dropWhile_id)
  then have "?t = trim p @ rev ?w" by (simp only: trim_def rev_append)
  moreover have "\<forall>c \<in> set (rev ?w). is_space c" by (auto dest: set_takeWhileD)
  ultimately have "count_word_starts False ?t = count_word_starts False (trim p)"
    using count_word_starts_trailing [of "rev ?w" False "trim p"] by simp
  then show ?thesis
    by (simp add: whitespace_delimited_words_def count_word_starts_dropWhile)
qed

lemma text_sentences_trim:
  assumes "p \<in> set (text_sentences text)"
  shows "trim p \<noteq> []" and "\<not> is_space (hd (trim p))" and "\<not> is_space (last (trim p))"
    and "wordCount (trim p) = whitespace_delimited_words p"
proof -
  from assms have "\<not> list_all is_space p" by (simp add: text_sentences_def)
  then show ne: "trim p \<noteq> []" by (simp add: trim_eq_Nil)
  then show t: "\<not> is_space (hd (trim p))" "\<not> is_space (last (trim p))"
    by (rule trim_trimmed)+
  show "wordCount (trim p) = whitespace_delimited_words p"
    using wordCount_trimmed [OF ne t] by (simp add: whitespace_delimited_words_trim)
qed

text \<open>
  C6. For every text, the style validator's violations are \<open>longSentences\<close> plus, when
  \<open>shortRatio\<close> is below 0.7, \<open>ceil((0.7 - shortRatio) * 10)\<close>. The sentences the validator
  counts are the sentences of the text, trimmed: each is non-empty, has no white space at
  either end, and the validator's word count of it is the number of whitespace-delimited
  words of the sentence. A sentence counts as long from 26 whitespace-delimited words on
  (25 words do not), and \<open>shortRatio\<close> is the fraction of the sentences with at most 12
  words, 1 when there is no sentence.
\<close>

theorem validateStyle_violations:
  "sentences_of text = map trim (text_sentences text) \<and>
   (\<forall>p \<in> set (text_sentences text).
      trim p \<noteq> [] \<and> \<not> is_space (hd (trim p)) \<and> \<not> is_space (last (trim p)) \<and>
      wordCount (trim p) = whitespace_delimited_words p) \<and>
   totalSentences (validateStyle text) = length (text_sentences text) \<and>
   longSentences (validateStyle text) =
     length (filter (\<lambda>p. whitespace_delimited_words p \<ge> 26) (text_sentences text)) \<and>
   shortRatio (validateStyle text) =
     (if text_sentences text = [] then 1
      else real (length (filter (\<lambda>p. whitespace_delimited_words p \<le> 12) (text_sentences text))) /
           real (length (text_sentences text))) \<and>
   violations (validateStyle text) =
     longSentences (validateStyle text) +
     (if shortRatio (validateStyle text) < 7 / 10
      then nat \<lceil>(7 / 10 - shortRatio (validateStyle text)) * 10\<rceil> else 0)"
proof -
  let ?S = "text_sentences text"
  have s: "sentences_of text = map trim ?S" by (rule sentences_of_text_sentences)
  have w: "\<forall>p \<in> set ?S. trim p \<noteq> [] \<and> \<not> is_space (hd (trim p)) \<and>
      \<not> is_space (last (trim p)) \<and> wordCount (trim p) = whitespace_delimited_words p"
    by (auto dest: text_sentences_trim)
  have l: "filter (\<lambda>p. wordCount (trim p) > MAX_WORDS) ?S =
      filter (\<lambda>p. whitespace_delimited_words p \<ge> 26) ?S"
    using w by (intro filter_cong) (auto simp: MAX_WORDS_def)
  have h: "filter (\<lambda>p. wordCount (trim p) \<le> SHORT_THRESHOLD) ?S =
      filter (\<lambda>p. whitespace_delimited_words p \<le> 12) ?S"
    using w by (intro filter_cong) (auto simp: SHORT_THRESHOLD_def)
  have c: "length (filter (\<lambda>x. wordCount x > MAX_WORDS) (sentences_of text)) =
      length (filter (\<lambda>p. whitespace_delimited_words p \<ge> 26) ?S)"
    "length (filter (\<lambda>x. wordCount x \<le> SHORT_THRESHOLD) (sentences_of text)) =
      length (filter (\<lambda>p. whitespace_delimited_words p \<le> 12) ?S)"
    by (simp_all only: s filter_map o_def length_map l h)
  have v: "totalSentences (validateStyle text) = length ?S \<and>
   longSentences (validateStyle text) =
     length (filter (\<lambda>p. whitespace_delimited_words p \<ge> 26) ?S) \<and>
   shortRatio (validateStyle text) =
     (if ?S = [] then 1
      else real (length (filter (\<lambda>p. whitespace_delimited_words p \<le> 12) ?S)) /
           real (length ?S)) \<and>
   violations (validateStyle text) =
     longSentences (validateStyle text) +
     (if shortRatio (validateStyle text) < 7 / 10
      then nat \<lceil>(7 / 10 - shortRatio (validateStyle text)) * 10\<rceil> else 0)"
    by (simp add: validateStyle_def foldl_style_step Let_def SHORT_RATIO_TARGET_def c)
      (simp add: s)
  from s w v show ?thesis by blast
qed

lemmas eval_style =
  text_sentences_def split_at_marks.simps starts_with_heading_marker_def is_sentence_end_def
  is_space_Char whitespace_delimited_words_def count_word_starts.simps

lemma text_sentences_examples:
  "text_sentences doc_26_words = [''a b c d e f g h i j k l m n o p q r s t u v w x y z'']"
  "text_sentences doc_25_words = [''a b c d e f g h i j k l m n o p q r s t u v w x y'']"
  "text_sentences doc_half_short = [''Stop'', '' a b c d e f g h i j k l m'']"
  "text_sentences doc_25_after_stop =
     [''Stop'', '' a b c d e f g h i j k l m n o p q r s t u v w x y'']"
  "text_sentences doc_26_after_stop =
     [''Stop'', '' a b c d e f g h i j k l m n o p q r s t u v w x y z'']"
  "text_sentences doc_heading = ['' Keep it short'']"
  "text_sentences [] = []"
  by (simp_all add: doc_26_words_def doc_25_words_def doc_half_short_def doc_25_after_stop_def
      doc_26_after_stop_def doc_heading_def eval_style)

lemma whitespace_delimited_words_examples:
  "whitespace_delimited_words ''a b c d e f g h i j k l m n o p q r s t u v w x y z'' = 26"
  "whitespace_delimited_words ''a b c d e f g h i j k l m n o p q r s t u v w x y'' = 25"
  "whitespace_delimited_words '' a b c d e f g h i j k l m n o p q r s t u v w x y z'' = 26"
  "whitespace_delimited_words '' a b c d e f g h i j k l m n o p q r s t u v w x y'' = 25"
  "whitespace_delimited_words '' a b c d e f g h i j k l m'' = 13"
  "whitespace_delimited_words ''Stop'' = 1"
  "whitespace_delimited_words '' Keep it short'' = 3"
  by (simp_all add: eval_style)

theorem validateStyle_violations_witness:
  "longSentences (validateStyle doc_26_words) = 1 \<and> violations (validateStyle doc_26_words) = 8 \<and>
   longSentences (validateStyle doc_25_words) = 0 \<and> violations (validateStyle doc_25_words) = 7 \<and>
   shortRatio (validateStyle doc_half_short) = 1 / 2 \<and> violations (validateStyle doc_half_short) = 2 \<and>
   shortRatio (validateStyle []) = 1 \<and> violations (validateStyle []) = 0 \<and>
   map wordCount (sentences_of doc_25_after_stop) = [1, 25] \<and>
   totalSentences (validateStyle doc_25_after_stop) = 2 \<and>
   longSentences (validateStyle doc_25_after_stop) = 0 \<and>
   violations (validateStyle doc_25_after_stop) = 2 \<and>
   map wordCount (sentences_of doc_26_after_stop) = [1, 26] \<and>
   longSentences (validateStyle doc_26_after_stop) = 1 \<and>
   violations (validateStyle doc_26_after_stop) = 3 \<and>
   totalSentences (validateStyle doc_heading) = 1 \<and> violations (validateStyle doc_heading) = 0"
proof -
  note ex = text_sentences_examples whitespace_delimited_words_examples
  have r: "shortRatio (validateStyle doc_half_short) = 1 / 2"
    "shortRatio (validateStyle doc_25_after_stop) = 1 / 2"
    "shortRatio (validateStyle doc_26_after_stop) = 1 / 2"
    using validateStyle_violations [of doc_half_short]
      validateStyle_violations [of doc_25_after_stop]
      validateStyle_violations [of doc_26_after_stop]
    by (simp_all add: ex del: divide_eq_eq_numeral1)
  have v: "violations (validateStyle doc_half_short) = 2"
    "violations (validateStyle doc_25_after_stop) = 2"
    "violations (validateStyle doc_26_after_stop) = 3"
    using validateStyle_violations [of doc_half_short]
      validateStyle_violations [of doc_25_after_stop]
      validateStyle_violations [of doc_26_after_stop]
    by (simp_all add: r ex)
  have w: "map wordCount (sentences_of doc_25_after_stop) = [1, 25]"
    "map wordCount (sentences_of doc_26_after_stop) = [1, 26]"
    using validateStyle_violations [of doc_25_after_stop]
      validateStyle_violations [of doc_26_after_stop]
    by (simp_all add: ex)
  have c: "totalSentences (validateStyle doc_25_after_stop) = 2"
    "longSentences (validateStyle doc_25_after_stop) = 0"
    "longSentences (validateStyle doc_26_after_stop) = 1"
    using validateStyle_violations [of doc_25_after_stop]
      validateStyle_violations [of doc_26_after_stop]
    by (simp_all add: ex)
  from r v w c show ?thesis
    using validateStyle_violations [of doc_26_words] validateStyle_violations [of doc_25_words]
      validateStyle_violations [of "[]"] validateStyle_violations [of doc_heading]
    by (simp add: ex)
qed

section \<open>The atypicality validator at the third-character level\<close>

lemma thirdletter_step_hit:
  "third_char_lowercase w \<Longrightarrow>
   thirdletter_step acc w =
     acc\<lparr>violations := violations acc + 1,
         details := (if length (details acc) < 5
                     then details acc @ [''3rdLetter violation: '' @ w]
                     else details acc)\<rparr>"
  by (simp add: thirdletter_step_def third_char_lowercase_def charAt_def)

lemma thirdletter_step_miss:
  "\<not> third_char_lowercase w \<Longrightarrow> thirdletter_step acc w = acc"
  by (auto simp: thirdletter_step_def third_char_lowercase_def charAt_def)

lemma violations_foldl_thirdletter_step:
  "violations (foldl thirdletter_step acc ws) =
     violations acc + length (filter third_char_lowercase ws)"
proof (induction ws arbitrary: acc)
  case Nil
  then show ?case by simp
next
  case (Cons w ws)
  then show ?case
    by (cases "third_char_lowercase w") (simp_all add: thirdletter_step_hit thirdletter_step_miss)
qed

lemma details_foldl_thirdletter_step:
  "details (foldl thirdletter_step acc ws) =
     details acc @ take (5 - length (details acc))
       (map (\<lambda>w. ''3rdLetter violation: '' @ w) (filter third_char_lowercase ws))"
proof (induction ws arbitrary: acc)
  case Nil
  then show ?case by simp
next
  case (Cons w ws)
  show ?case
  proof (cases "third_char_lowercase w")
    case True
    show ?thesis
    proof (cases "length (details acc) < 5")
      case less: True
      then have "5 - length (details acc) = Suc (4 - length (details acc))" by simp
      with True less show ?thesis
        by (simp add: Cons.IH thirdletter_step_hit del: append.simps list.map)
           (simp add: thirdletter_step_hit)
    next
      case False
      with True show ?thesis by (simp add: Cons.IH thirdletter_step_hit)
    qed
  next
    case False
    then show ?thesis by (simp add: Cons.IH thirdletter_step_miss)
  qed
qed

text \<open>
  C7. At the third-character level the violations are the words of at least three
  characters whose third character is a lowercase letter: a shorter word is never a
  violation, \<open>test\<close> is one and \<open>teSt\<close> is not. The detail list holds the first five of
  them; the counter is not capped.
\<close>

theorem third_character_level:
  "violations (validateAtypicality text high) =
     length (filter third_char_lowercase (words_of text)) \<and>
   details (validateAtypicality text high) =
     map (\<lambda>w. ''3rdLetter violation: '' @ w) (take 5 (filter third_char_lowercase (words_of text))) \<and>
   length (details (validateAtypicality text high)) = min 5 (violations (validateAtypicality text high)) \<and>
   (\<forall>w. length w < 3 \<longrightarrow> \<not> third_char_lowercase w) \<and>
   third_char_lowercase ''test'' \<and> \<not> third_char_lowercase ''teSt''"
  by (simp add: validateAtypicality_def violations_foldl_thirdletter_step
      details_foldl_thirdletter_step take_map third_char_lowercase_def is_lower_Char min_def)

lemma words_of_examples:
  "words_of doc_third_letters =
     [''test'', ''teSt'', ''ab'', ''tests'', ''tested'', ''tester_1'', ''__x'', ''testing'', ''Tesla'']"
  "words_of ''teSt'' = [''teSt'']"
  "words_of ''test'' = [''test'']"
  by (simp_all add: doc_third_letters_def words_of.simps is_word_char_def is_lower_Char
      is_upper_Char is_digit_Char)

theorem third_character_level_witness:
  "length ''ab'' < 3 \<and> \<not> third_char_lowercase ''ab'' \<and>
   violations (validateAtypicality doc_third_letters high) = 7 \<and>
   length (details (validateAtypicality doc_third_letters high)) = 5 \<and>
   violations (validateAtypicality ''teSt'' high) = 0 \<and>
   violations (validateAtypicality ''test'' high) = 1"
  using third_character_level [of doc_third_letters]
    third_character_level [of "''teSt''"] third_character_level [of "''test''"]
  by (simp add: words_of_examples is_lower_Char third_char_lowercase_def)

section \<open>The retries of the generation boundary\<close>

lemma map_upt_shift: "map f [0..<Suc k] = f 0 # map (\<lambda>j. f (Suc j)) [0..<k]"
  by (induction k) simp_all

lemma generate_from_spec:
  "a + n = 6 \<Longrightarrow> 1 \<le> a \<Longrightarrow>
   (case generate_from create req a le st of
      (r, st') \<Rightarrow>
        slept st' = slept st @ map (\<lambda>j. INITIAL_DELAY_MS * 2 ^ (a - 1 + j))
                      [0..<length (takeWhile isl (outcomes create req (provider st) n))] \<and>
        provider st' = provider_after create req (provider st)
                         (min (Suc (length (takeWhile isl (outcomes create req (provider st) n)))) n) \<and>
        (length (takeWhile isl (outcomes create req (provider st) n)) = n \<longrightarrow>
           r = Inl (if n = 0 then le else Some (projl (last (outcomes create req (provider st) n))))) \<and>
        (length (takeWhile isl (outcomes create req (provider st) n)) < n \<longrightarrow>
           r = Inr (or_else (content (projr (outcomes create req (provider st) n !
                      length (takeWhile isl (outcomes create req (provider st) n))))) [])))"
proof (induction n arbitrary: a le st)
  case 0
  then have "\<not> a \<le> client_MAX_RETRIES" by (simp add: client_MAX_RETRIES_def)
  then show ?case by (simp add: generate_from.simps)
next
  case (Suc n)
  then have le5: "a \<le> client_MAX_RETRIES" by (simp add: client_MAX_RETRIES_def)
  obtain r p' where c: "create (provider st) req = (r, p')" by (cases "create (provider st) req")
  show ?case
  proof (cases r)
    case (Inr response)
    with c le5 show ?thesis
      by (simp add: generate_from.simps [of create req a])
  next
    case (Inl e)
    let ?st = "st\<lparr>provider := p', slept := slept st @ [INITIAL_DELAY_MS * 2 ^ (a - 1)]\<rparr>"
    have g: "generate_from create req a le st = generate_from create req (a + 1) (Some e) ?st"
      using c Inl le5 by (simp add: generate_from.simps [of create req a])
    have ih: "case generate_from create req (a + 1) (Some e) ?st of
      (r, st') \<Rightarrow>
        slept st' = slept ?st @ map (\<lambda>j. INITIAL_DELAY_MS * 2 ^ (a + 1 - 1 + j))
                      [0..<length (takeWhile isl (outcomes create req (provider ?st) n))] \<and>
        provider st' = provider_after create req (provider ?st)
                         (min (Suc (length (takeWhile isl (outcomes create req (provider ?st) n)))) n) \<and>
        (length (takeWhile isl (outcomes create req (provider ?st) n)) = n \<longrightarrow>
           r = Inl (if n = 0 then Some e else Some (projl (last (outcomes create req (provider ?st) n))))) \<and>
        (length (takeWhile isl (outcomes create req (provider ?st) n)) < n \<longrightarrow>
           r = Inr (or_else (content (projr (outcomes create req (provider ?st) n !
                      length (takeWhile isl (outcomes create req (provider ?st) n))))) []))"
      using Suc.prems by (intro Suc.IH) simp_all
    have a1: "a - 1 + Suc j = a + j" for j using Suc.prems by simp
    show ?thesis
      using ih c Inl Suc.prems
      by (simp add: g map_upt_shift a1 split: prod.splits del: upt_Suc)
  qed
qed

text \<open>
  C8. A generation call tries the endpoint up to 5 times. After each failed attempt it
  sleeps, 1000 ms after the first and twice the last delay after each further one. If
  all 5 attempts fail, the error of the last attempt is thrown as it is; otherwise the
  text of the first successful attempt is returned (the empty text when the response has
  none). \<open>k\<close> is the number of attempts that failed before the first success.
\<close>

theorem generate_retries:
  "case generate create options st of
     (r, st') \<Rightarrow>
       (let os = outcomes create (chat_request options) (provider st) 5;
            k = length (takeWhile isl os)
        in client_MAX_RETRIES = 5 \<and> INITIAL_DELAY_MS = 1000 \<and> k \<le> 5 \<and>
           slept st' = slept st @ map (\<lambda>j. 1000 * 2 ^ j) [0..<k] \<and>
           provider st' = provider_after create (chat_request options) (provider st) (min (k + 1) 5) \<and>
           (k = 5 \<longrightarrow> (\<exists>e. os ! 4 = Inl e \<and> r = Inl (Some e))) \<and>
           (k < 5 \<longrightarrow> (\<exists>response. os ! k = Inr response \<and>
                        r = Inr (or_else (content response) []))))"
proof -
  let ?os = "outcomes create (chat_request options) (provider st) 5"
  let ?k = "length (takeWhile isl ?os)"
  have len: "length ?os = 5" by (simp add: eval_nat_numeral)
  have k5: "?k \<le> 5" using length_takeWhile_le [of isl ?os] len by simp
  have fail: "\<exists>e. ?os ! 4 = Inl e \<and> projl (last ?os) = e" if "?k = 5"
  proof -
    from that len have "takeWhile isl ?os = ?os"
      by (metis takeWhile_eq_all_conv takeWhile_eq_take take_all_iff le_refl)
    then have "\<forall>x \<in> set ?os. isl x" by (simp add: takeWhile_eq_all_conv)
    moreover have "?os ! 4 \<in> set ?os" using len by simp
    ultimately have "isl (?os ! 4)" by blast
    moreover have "?os \<noteq> []" using len by auto
    then have "last ?os = ?os ! 4" using len by (simp add: last_conv_nth)
    ultimately show ?thesis by (cases "?os ! 4") auto
  qed
  have ok: "\<exists>response. ?os ! ?k = Inr response" if "?k < 5"
  proof -
    from that len have "\<not> isl (?os ! ?k)"
      using nth_length_takeWhile [of isl ?os] by simp
    then show ?thesis by (cases "?os ! ?k") auto
  qed
  show ?thesis
    using generate_from_spec [where a = 1 and n = 5 and create = create
        and req = "chat_request options" and le = None and st = st] k5 fail ok
    by (auto simp: generate_def Let_def client_MAX_RETRIES_def INITIAL_DELAY_MS_def
        split: prod.splits)
qed

lemma outcomes_numeral:
  "outcomes create req p (numeral k) =
     fst (create p req) # outcomes create req (snd (create p req)) (pred_numeral k)"
  by (simp add: numeral_eq_Suc)

lemma provider_after_numeral:
  "provider_after create req p (numeral k) =
     provider_after create req (snd (create p req)) (pred_numeral k)"
  by (simp add: numeral_eq_Suc)

theorem generate_retries_witness:
  "fst (generate flaky_endpoint (patch_options ''# Policy'' ''Add a section'') fresh_client) = Inr ''ok'' \<and>
   slept (snd (generate flaky_endpoint (patch_options ''# Policy'' ''Add a section'') fresh_client)) = [1000, 2000] \<and>
   provider (snd (generate flaky_endpoint (patch_options ''# Policy'' ''Add a section'') fresh_client)) = 3 \<and>
   fst (generate failing_endpoint (patch_options ''# Policy'' ''Add a section'') fresh_client) = Inl (Some 4) \<and>
   slept (snd (generate failing_endpoint (patch_options ''# Policy'' ''Add a section'') fresh_client)) = [1000, 2000, 4000, 8000, 16000] \<and>
   provider (snd (generate failing_endpoint (patch_options ''# Policy'' ''Add a section'') fresh_client)) = 5"
proof -
  have a: "outcomes failing_endpoint req 0 5 = [Inl 0, Inl 1, Inl 2, Inl 3, Inl 4]"
    "provider_after failing_endpoint req 0 5 = 5" for req
    by (simp_all add: outcomes_numeral provider_after_numeral failing_endpoint_def)
  have b: "outcomes flaky_endpoint req 0 5 =
      [Inl 0, Inl 1,
       Inr \<lparr>content = Some ''ok'', prompt_tokens = Some 7, completion_tokens = None\<rparr>,
       Inr \<lparr>content = Some ''ok'', prompt_tokens = Some 7, completion_tokens = None\<rparr>,
       Inr \<lparr>content = Some ''ok'', prompt_tokens = Some 7, completion_tokens = None\<rparr>]"
    "provider_after flaky_endpoint req 0 3 = 3" for req
    by (simp_all add: outcomes_numeral provider_after_numeral flaky_endpoint_def)
  have u: "[0..<5] = [0, 1, 2, 3, 4]" "[0..<2] = [0, Suc 0]"
    by (simp_all add: upt_conv_Cons)
  show ?thesis
    using generate_retries [of failing_endpoint "patch_options ''# Policy'' ''Add a section''" fresh_client]
      generate_retries [of flaky_endpoint "patch_options ''# Policy'' ''Add a section''" fresh_client]
    by (simp add: a b u fresh_client_def Let_def or_else_def client_MAX_RETRIES_def
        INITIAL_DELAY_MS_def failing_endpoint_def flaky_endpoint_def split: prod.splits)
qed

section \<open>Calls of the generation boundary that succeed at once\<close>

lemma generate_first_success:
  "create (provider st) (chat_request options) = (Inr response, p') \<Longrightarrow>
   generate create options st =
     (Inr (or_else (content response) []),
      st\<lparr>provider := p', totalCalls := totalCalls st + 1,
         totalInputTokens := totalInputTokens st + or_else (prompt_tokens response) 0,
         totalOutputTokens := totalOutputTokens st + or_else (completion_tokens response) 0\<rparr>)"
  by (subst generate_def, subst generate_from.simps) (simp add: client_MAX_RETRIES_def)

lemma generate_always_returns:
  "always_returns create t \<Longrightarrow> \<exists>st'. generate create options st = (Inr t, st')"
proof -
  assume "always_returns create t"
  then obtain response p' where
    "create (provider st) (chat_request options) = (Inr response, p')" "content response = Some t"
    unfolding always_returns_def by blast
  then show ?thesis
    using generate_first_success [of create st options response p'] by (simp add: or_else_def)
qed

lemma always_returns_constant_endpoint: "always_returns (constant_endpoint t) t"
  by (simp add: always_returns_def constant_endpoint_def)

lemma generate_scripted:
  "provider st < length texts \<Longrightarrow>
   generate (scripted_endpoint texts) options st =
     (Inr (texts ! provider st), st\<lparr>provider := provider st + 1, totalCalls := totalCalls st + 1\<rparr>)"
  by (simp add: generate_first_success [where p' = "provider st + 1" and response =
        "\<lparr>content = Some (texts ! provider st), prompt_tokens = None, completion_tokens = None\<rparr>"]
      scripted_endpoint_def or_else_def)

lemma generate_constant_endpoint:
  "generate (constant_endpoint t) options st =
     (Inr t, st\<lparr>provider := provider st + 1, totalCalls := totalCalls st + 1\<rparr>)"
  by (simp add: generate_first_success [where p' = "provider st + 1" and response =
        "\<lparr>content = Some t, prompt_tokens = None, completion_tokens = None\<rparr>"]
      constant_endpoint_def or_else_def)

section \<open>Scoring plain texts\<close>

lemma total_calculateDrift_empty: "total (calculateDrift [] low) = 20"
  by (simp add: calculateDrift_def validateVocabulary_empty validateTemplate_empty
      validateStyle_empty validateCrossRefs_empty validateAtypicality_def)

lemma match_template_heading_hash:
  "match_template_heading s = Some x \<Longrightarrow> s \<noteq> [] \<and> hd s = CHR ''#''"
  by (cases s) (auto simp: match_template_heading_def Let_def split: if_splits)

lemma match_crossref_heading_hash:
  "match_crossref_heading s = Some x \<Longrightarrow> s \<noteq> [] \<and> hd s = CHR ''#''"
  by (cases s) (auto simp: match_crossref_heading_def Let_def split: if_splits)

lemma scan_headings_no_hash:
  "(\<And>s x. m s = Some x \<Longrightarrow> s \<noteq> [] \<and> hd s = CHR ''#'') \<Longrightarrow> CHR ''#'' \<notin> set s \<Longrightarrow>
   scan_headings m pos bol s = []"
proof (induction s arbitrary: pos bol)
  case Nil
  then show ?case by simp
next
  case (Cons c cs)
  have "m (c # cs) = None"
  proof (cases "m (c # cs)")
    case (Some x)
    from Cons.prems(1) [OF Some] Cons.prems(2) show ?thesis by simp
  qed simp
  with Cons show ?case by simp
qed

lemma total_plain_text:
  assumes "CHR ''#'' \<notin> set text" and "scan_references text = []"
    and "sentences_of text = [s]" and "wordCount s \<le> 12"
  shows "total (calculateDrift text low) =
           (\<Sum>t\<leftarrow>VOCABULARY. nat \<bar>int (occurrences t text) - 1\<bar>)"
proof -
  have t: "validateTemplate text = \<lparr>violations = 0, details = []\<rparr>"
  proof -
    have "template_headings text = []"
      unfolding template_headings_def using assms(1)
      by (intro scan_headings_no_hash) (auto dest: match_template_heading_hash)
    then show ?thesis by (simp add: validateTemplate_def parse_sections_def)
  qed
  have c: "violations (validateCrossRefs text) = 0"
    by (simp add: validateCrossRefs_def assms(2))
  have s: "violations (validateStyle text) = 0"
    using assms(4)
    by (simp add: validateStyle_def assms(3) style_step_def Let_def MAX_WORDS_def
        SHORT_THRESHOLD_def SHORT_RATIO_TARGET_def)
  show ?thesis
    by (simp add: calculateDrift_def Let_def t c s validateAtypicality_def
        validateVocabulary_occurrences)
qed

lemmas eval_plain =
  scan_references.simps match_reference_def sentences_of_def split_runs.simps trim_def
  is_sentence_end_def startsWith_def is_space_Char wordCount_def

lemma occurrences_draft_score_5:
  "occurrences ''Zero Trust'' draft_score_5 = 1"
  "occurrences ''MFA'' draft_score_5 = 1"
  "occurrences ''Bastion Host'' draft_score_5 = 0"
  "occurrences ''RBAC'' draft_score_5 = 1"
  "occurrences ''Data At Rest'' draft_score_5 = 1"
  "occurrences ''Data In Transit'' draft_score_5 = 0"
  "occurrences ''Least Privilege'' draft_score_5 = 0"
  "occurrences ''Air Gap'' draft_score_5 = 1"
  "occurrences ''SLA'' draft_score_5 = 1"
  "occurrences ''Biometric'' draft_score_5 = 1"
  "occurrences ''Cryptographic Salt'' draft_score_5 = 0"
  "occurrences ''PKI'' draft_score_5 = 1"
  "occurrences ''Endpoint Telemetry'' draft_score_5 = 0"
  "occurrences ''SIEM'' draft_score_5 = 1"
  "occurrences ''SOC2'' draft_score_5 = 1"
  "occurrences ''GDPR'' draft_score_5 = 1"
  "occurrences ''OIDC'' draft_score_5 = 1"
  "occurrences ''SAML'' draft_score_5 = 1"
  "occurrences ''Kill Chain'' draft_score_5 = 1"
  "occurrences ''Honeypot'' draft_score_5 = 1"
  by (simp_all only: draft_score_5_def eval_occurrences)

lemma plain_draft_score_5:
  "CHR ''#'' \<notin> set draft_score_5" "scan_references draft_score_5 = []"
  "sentences_of draft_score_5 = [draft_score_5]" "wordCount draft_score_5 = 6"
  by (simp_all add: draft_score_5_def eval_plain)

lemma total_draft_score_5: "total (calculateDrift draft_score_5 low) = 5"
  by (subst total_plain_text [OF plain_draft_score_5(1,2,3)])
     (simp_all add: plain_draft_score_5(4) VOCABULARY_def occurrences_draft_score_5)

lemma occurrences_draft_score_2:
  "occurrences ''Zero Trust'' draft_score_2 = 1"
  "occurrences ''MFA'' draft_score_2 = 1"
  "occurrences ''Bastion Host'' draft_score_2 = 1"
  "occurrences ''RBAC'' draft_score_2 = 1"
  "occurrences ''Data At Rest'' draft_score_2 = 1"
  "occurrences ''Data In Transit'' draft_score_2 = 1"
  "occurrences ''Least Privilege'' draft_score_2 = 1"
  "occurrences ''Air Gap'' draft_score_2 = 1"
  "occurrences ''SLA'' draft_score_2 = 1"
  "occurrences ''Biometric'' draft_score_2 = 1"
  "occurrences ''Cryptographic Salt'' draft_score_2 = 0"
  "occurrences ''PKI'' draft_score_2 = 1"
  "occurrences ''Endpoint Telemetry'' draft_score_2 = 0"
  "occurrences ''SIEM'' draft_score_2 = 1"
  "occurrences ''SOC2'' draft_score_2 = 1"
  "occurrences ''GDPR'' draft_score_2 = 1"
  "occurrences ''OIDC'' draft_score_2 = 1"
  "occurrences ''SAML'' draft_score_2 = 1"
  "occurrences ''Kill Chain'' draft_score_2 = 1"
  "occurrences ''Honeypot'' draft_score_2 = 1"
  by (simp_all only: draft_score_2_def eval_occurrences)

lemma plain_draft_score_2:
  "CHR ''#'' \<notin> set draft_score_2" "scan_references draft_score_2 = []"
  "sentences_of draft_score_2 = [draft_score_2]" "wordCount draft_score_2 = 10"
  by (simp_all add: draft_score_2_def eval_plain)

lemma total_draft_score_2: "total (calculateDrift draft_score_2 low) = 2"
  by (subst total_plain_text [OF plain_draft_score_2(1,2,3)])
     (simp_all add: plain_draft_score_2(4) VOCABULARY_def occurrences_draft_score_2)

lemma occurrences_draft_score_7:
  "occurrences ''Zero Trust'' draft_score_7 = 0"
  "occurrences ''MFA'' draft_score_7 = 1"
  "occurrences ''Bastion Host'' draft_score_7 = 0"
  "occurrences ''RBAC'' draft_score_7 = 1"
  "occurrences ''Data At Rest'' draft_score_7 = 0"
  "occurrences ''Data In Transit'' draft_score_7 = 0"
  "occurrences ''Least Privilege'' draft_score_7 = 0"
  "occurrences ''Air Gap'' draft_score_7 = 1"
  "occurrences ''SLA'' draft_score_7 = 1"
  "occurrences ''Biometric'' draft_score_7 = 1"
  "occurrences ''Cryptographic Salt'' draft_score_7 = 0"
  "occurrences ''PKI'' draft_score_7 = 1"
  "occurrences ''Endpoint Telemetry'' draft_score_7 = 0"
  "occurrences ''SIEM'' draft_score_7 = 1"
  "occurrences ''SOC2'' draft_score_7 = 1"
  "occurrences ''GDPR'' draft_score_7 = 1"
  "occurrences ''OIDC'' draft_score_7 = 1"
  "occurrences ''SAML'' draft_score_7 = 1"
  "occurrences ''Kill Chain'' draft_score_7 = 1"
  "occurrences ''Honeypot'' draft_score_7 = 1"
  by (simp_all only: draft_score_7_def eval_occurrences)

lemma plain_draft_score_7:
  "CHR ''#'' \<notin> set draft_score_7" "scan_references draft_score_7 = []"
  "sentences_of draft_score_7 = [draft_score_7]" "wordCount draft_score_7 = 3"
  by (simp_all add: draft_score_7_def eval_plain)

lemma total_draft_score_7: "total (calculateDrift draft_score_7 low) = 7"
  by (subst total_plain_text [OF plain_draft_score_7(1,2,3)])
     (simp_all add: plain_draft_score_7(4) VOCABULARY_def occurrences_draft_score_7)

lemma occurrences_draft_score_2_again:
  "occurrences ''Zero Trust'' draft_score_2_again = 1"
  "occurrences ''MFA'' draft_score_2_again = 1"
  "occurrences ''Bastion Host'' draft_score_2_again = 1"
  "occurrences ''RBAC'' draft_score_2_again = 1"
  "occurrences ''Data At Rest'' draft_score_2_again = 1"
  "occurrences ''Data In Transit'' draft_score_2_again = 0"
  "occurrences ''Least Privilege'' draft_score_2_again = 0"
  "occurrences ''Air Gap'' draft_score_2_again = 1"
  "occurrences ''SLA'' draft_score_2_again = 1"
  "occurrences ''Biometric'' draft_score_2_again = 1"
  "occurrences ''Cryptographic Salt'' draft_score_2_again = 1"
  "occurrences ''PKI'' draft_score_2_again = 1"
  "occurrences ''Endpoint Telemetry'' draft_score_2_again = 1"
  "occurrences ''SIEM'' draft_score_2_again = 1"
  "occurrences ''SOC2'' draft_score_2_again = 1"
  "occurrences ''GDPR'' draft_score_2_again = 1"
  "occurrences ''OIDC'' draft_score_2_again = 1"
  "occurrences ''SAML'' draft_score_2_again = 1"
  "occurrences ''Kill Chain'' draft_score_2_again = 1"
  "occurrences ''Honeypot'' draft_score_2_again = 1"
  by (simp_all only: draft_score_2_again_def eval_occurrences)

lemma plain_draft_score_2_again:
  "CHR ''#'' \<notin> set draft_score_2_again" "scan_references draft_score_2_again = []"
  "sentences_of draft_score_2_again = [draft_score_2_again]" "wordCount draft_score_2_again = 9"
  by (simp_all add: draft_score_2_again_def eval_plain)

lemma total_draft_score_2_again: "total (calculateDrift draft_score_2_again low) = 2"
  by (subst total_plain_text [OF plain_draft_score_2_again(1,2,3)])
     (simp_all add: plain_draft_score_2_again(4) VOCABULARY_def occurrences_draft_score_2_again)

section \<open>The repair strategy\<close>

lemma sorted_gt_butlast: "sorted_wrt (>) (h :: nat list) \<Longrightarrow> sorted_wrt (>) (butlast h)"
  by (induction h) (auto dest: in_set_butlastD)

lemma sorted_gt_butlast_pos:
  "sorted_wrt (>) (h :: nat list) \<Longrightarrow> 0 \<notin> set (butlast h)"
proof (induction h rule: rev_induct)
  case Nil
  then show ?case by simp
next
  case (snoc x xs)
  then show ?case by (auto simp: sorted_wrt_append)
qed

lemma sorted_gt_ge_last:
  "sorted_wrt (>) (h :: nat list) \<Longrightarrow> x \<in> set h \<Longrightarrow> last h \<le> x"
proof (induction h rule: rev_induct)
  case Nil
  then show ?case by simp
next
  case (snoc y ys)
  then show ?case by (auto simp: sorted_wrt_append intro: less_imp_le)
qed

lemma repair_loop_spec:
  "repair_loop create a score r prev h st = (Inr res, st') \<Longrightarrow>
   h \<noteq> [] \<Longrightarrow> length h = r + 1 \<Longrightarrow> r \<le> repair_MAX_RETRIES \<Longrightarrow>
   score = calculateDrift a low \<Longrightarrow> last h = total score \<Longrightarrow> prev = total score \<Longrightarrow>
   sorted_wrt (>) h \<Longrightarrow>
   length (driftHistory res) = retries res + 1 \<and> retries res \<le> repair_MAX_RETRIES \<and>
   take (length h) (driftHistory res) = h \<and>
   finalScore res = calculateDrift (artifact res) low \<and>
   total (finalScore res) = last (driftHistory res) \<and>
   converged res = (total (finalScore res) = 0) \<and>
   sorted_wrt (>) (butlast (driftHistory res)) \<and> 0 \<notin> set (butlast (driftHistory res)) \<and>
   (last (driftHistory res) = 0 \<or> retries res = repair_MAX_RETRIES \<or>
    \<not> sorted_wrt (>) (driftHistory res))"
proof (induction create a score r prev h st rule: repair_loop.induct)
  case (1 create a score r prev h st)
  show ?case
  proof (cases "total score > 0 \<and> r < repair_MAX_RETRIES")
    case False
    with "1.prems"(1) have res: "res = \<lparr>artifact = a, retries = r, finalScore = score,
        converged = (total score = 0), driftHistory = h\<rparr>"
      by (simp add: repair_loop.simps [of create a score r])
    from False "1.prems" have "last h = 0 \<or> r = repair_MAX_RETRIES" by auto
    with "1.prems" show ?thesis
      by (simp add: res sorted_gt_butlast sorted_gt_butlast_pos)
  next
    case True
    obtain g st1 where g: "generate create (fix_options a (repair_formatViolations score)) st = (g, st1)"
      by (cases "generate create (fix_options a (repair_formatViolations score)) st")
    show ?thesis
    proof (cases g)
      case (Inl e)
      with True g "1.prems"(1) show ?thesis
        by (simp add: repair_loop.simps [of create a score r])
    next
      case (Inr nxt)
      let ?s = "calculateDrift nxt low"
      let ?h = "h @ [total ?s]"
      have pos: "0 \<notin> set h"
      proof
        assume "0 \<in> set h"
        then have "last h \<le> 0" using "1.prems"(8) by (rule sorted_gt_ge_last [rotated])
        with True "1.prems" show False by simp
      qed
      show ?thesis
      proof (cases "total ?s \<ge> prev")
        case stop: True
        with True g Inr "1.prems"(1) have res: "res = \<lparr>artifact = nxt, retries = r + 1,
            finalScore = ?s, converged = (total ?s = 0), driftHistory = ?h\<rparr>"
          by (simp add: repair_loop.simps [of create a score r] Let_def)
        have "\<not> sorted_wrt (>) ?h"
        proof
          assume "sorted_wrt (>) ?h"
          moreover have "last h \<in> set h" using "1.prems"(2) by simp
          ultimately have "total ?s < last h" by (auto simp: sorted_wrt_append)
          with stop "1.prems" show False by simp
        qed
        with True "1.prems" pos show ?thesis
          by (simp add: res)
      next
        case continue: False
        with True g Inr "1.prems"(1) have rec:
          "repair_loop create nxt ?s (r + 1) (total ?s) ?h st1 = (Inr res, st')"
          by (simp add: repair_loop.simps [of create a score r] Let_def)
        have srt: "sorted_wrt (>) ?h"
        proof -
          have "total ?s < x" if "x \<in> set h" for x
            using sorted_gt_ge_last [OF "1.prems"(8) that] continue "1.prems" by simp
          with "1.prems"(8) show ?thesis by (auto simp: sorted_wrt_append)
        qed
        have "length (driftHistory res) = retries res + 1 \<and> retries res \<le> repair_MAX_RETRIES \<and>
           take (length ?h) (driftHistory res) = ?h \<and>
           finalScore res = calculateDrift (artifact res) low \<and>
           total (finalScore res) = last (driftHistory res) \<and>
           converged res = (total (finalScore res) = 0) \<and>
           sorted_wrt (>) (butlast (driftHistory res)) \<and> 0 \<notin> set (butlast (driftHistory res)) \<and>
           (last (driftHistory res) = 0 \<or> retries res = repair_MAX_RETRIES \<or>
            \<not> sorted_wrt (>) (driftHistory res))"
          using srt "1.prems" True
          by (intro "1.IH" [OF True g [symmetric] Inr refl refl continue rec]) simp_all
        moreover from this have "take (length h) (driftHistory res) = h"
          by (metis append_eq_conv_conj take_take min.idem le_add1 length_append min_def take_all_iff
              append_take_drop_id)
        ultimately show ?thesis by blast
      qed
    qed
  qed
qed

lemma repairEvolve_spec:
  assumes "repairEvolve create previousArtifact patchRequest st = (Inr res, st')"
  shows "\<exists>a st1. generate create (patch_options previousArtifact patchRequest) st = (Inr a, st1) \<and>
           hd (driftHistory res) = total (calculateDrift a low)"
    and "length (driftHistory res) = retries res + 1"
    and "retries res \<le> repair_MAX_RETRIES"
    and "finalScore res = calculateDrift (artifact res) low"
    and "total (finalScore res) = last (driftHistory res)"
    and "converged res = (total (finalScore res) = 0)"
    and "sorted_wrt (>) (butlast (driftHistory res))"
    and "0 \<notin> set (butlast (driftHistory res))"
    and "last (driftHistory res) = 0 \<or> retries res = repair_MAX_RETRIES \<or>
         \<not> sorted_wrt (>) (driftHistory res)"
proof -
  obtain g st1 where g: "generate create (patch_options previousArtifact patchRequest) st = (g, st1)"
    by (cases "generate create (patch_options previousArtifact patchRequest) st")
  from assms g obtain a where a: "g = Inr a"
    by (cases g) (simp_all add: repairEvolve_def)
  let ?s = "calculateDrift a low"
  from assms g a have loop: "repair_loop create a ?s 0 (total ?s) [total ?s] st1 = (Inr res, st')"
    by (simp add: repairEvolve_def Let_def)
  note spec = repair_loop_spec [OF loop]
  have all: "length (driftHistory res) = retries res + 1 \<and> retries res \<le> repair_MAX_RETRIES \<and>
   take (length [total ?s]) (driftHistory res) = [total ?s] \<and>
   finalScore res = calculateDrift (artifact res) low \<and>
   total (finalScore res) = last (driftHistory res) \<and>
   converged res = (total (finalScore res) = 0) \<and>
   sorted_wrt (>) (butlast (driftHistory res)) \<and> 0 \<notin> set (butlast (driftHistory res)) \<and>
   (last (driftHistory res) = 0 \<or> retries res = repair_MAX_RETRIES \<or>
    \<not> sorted_wrt (>) (driftHistory res))"
    by (rule spec) simp_all
  then have "hd (driftHistory res) = total ?s"
    by (cases "driftHistory res") auto
  with g a show "\<exists>a st1. generate create (patch_options previousArtifact patchRequest) st = (Inr a, st1) \<and>
           hd (driftHistory res) = total (calculateDrift a low)" by blast
  from all show "length (driftHistory res) = retries res + 1"
    and "retries res \<le> repair_MAX_RETRIES"
    and "finalScore res = calculateDrift (artifact res) low"
    and "total (finalScore res) = last (driftHistory res)"
    and "converged res = (total (finalScore res) = 0)"
    and "sorted_wrt (>) (butlast (driftHistory res))"
    and "0 \<notin> set (butlast (driftHistory res))"
    and "last (driftHistory res) = 0 \<or> retries res = repair_MAX_RETRIES \<or>
         \<not> sorted_wrt (>) (driftHistory res)"
    by blast+
qed

lemma repairEvolve_fixed_text:
  assumes "always_returns create t" and "0 < total (calculateDrift t low)"
  shows "fst (repairEvolve create previousArtifact patchRequest st) =
     Inr \<lparr>artifact = t, retries = 1, finalScore = calculateDrift t low, converged = False,
          driftHistory = [total (calculateDrift t low), total (calculateDrift t low)]\<rparr>"
proof -
  obtain st1 where g1: "generate create (patch_options previousArtifact patchRequest) st = (Inr t, st1)"
    using generate_always_returns [OF assms(1)] by blast
  obtain st2 where g2: "generate create
      (fix_options t (repair_formatViolations (calculateDrift t low))) st1 = (Inr t, st2)"
    using generate_always_returns [OF assms(1)] by blast
  show ?thesis
    using assms(2)
    by (simp add: repairEvolve_def g1 g2 Let_def repair_MAX_RETRIES_def
        repair_loop.simps [of create t "calculateDrift t low" 0])
qed

lemma repairEvolve_constant_empty:
  "fst (repairEvolve (constant_endpoint []) previousArtifact patchRequest st) =
     Inr \<lparr>artifact = [], retries = 1, finalScore = calculateDrift [] low, converged = False,
          driftHistory = [20, 20]\<rparr>"
  using repairEvolve_fixed_text [OF always_returns_constant_endpoint, of "[]"]
  by (simp add: total_calculateDrift_empty)



section \<open>The regeneration strategy with retries\<close>

lemma regeneration_loop_spec:
  "regeneration_loop create bp rc lvl score r bs ba h st = (Inr res, st') \<Longrightarrow>
   h \<noteq> [] \<Longrightarrow> length h = r + 1 \<Longrightarrow> r \<le> regeneration_MAX_RETRIES \<Longrightarrow>
   last h = total score \<Longrightarrow> bs = Min (set h) \<Longrightarrow> bs = total (calculateDrift ba lvl) \<Longrightarrow>
   0 \<notin> set (butlast h) \<Longrightarrow>
   length (driftHistory res) = retries res + 1 \<and> retries res \<le> regeneration_MAX_RETRIES \<and>
   take (length h) (driftHistory res) = h \<and>
   finalScore res = calculateDrift (artifact res) lvl \<and>
   total (finalScore res) = Min (set (driftHistory res)) \<and>
   converged res = (total (finalScore res) = 0) \<and>
   0 \<notin> set (butlast (driftHistory res)) \<and>
   (last (driftHistory res) = 0 \<or> retries res = regeneration_MAX_RETRIES)"
proof (induction create bp rc lvl score r bs ba h st rule: regeneration_loop.induct)
  case (1 create bp rc lvl score r bs ba h st)
  show ?case
  proof (cases "total score > 0 \<and> r < regeneration_MAX_RETRIES")
    case False
    with "1.prems"(1) have res: "res = \<lparr>artifact = ba, retries = r,
        finalScore = calculateDrift ba lvl, converged = (bs = 0), driftHistory = h\<rparr>"
      by (simp add: regeneration_loop.simps [of create bp rc lvl score r])
    from False "1.prems" have "last h = 0 \<or> r = regeneration_MAX_RETRIES" by auto
    with "1.prems" show ?thesis
      by (simp add: res)
  next
    case True
    obtain g st1 where g: "generate create
        (regenerate_options bp rc (regeneration_formatViolations score)) st = (g, st1)"
      by (cases "generate create
        (regenerate_options bp rc (regeneration_formatViolations score)) st")
    show ?thesis
    proof (cases g)
      case (Inl e)
      with True g "1.prems"(1) show ?thesis
        by (simp add: regeneration_loop.simps [of create bp rc lvl score r])
    next
      case (Inr nxt)
      let ?s = "calculateDrift nxt lvl"
      let ?h = "h @ [total ?s]"
      let ?bs = "if total ?s < bs then total ?s else bs"
      let ?ba = "if total ?s < bs then nxt else ba"
      have best: "(?bs, ?ba) = (if total ?s < bs then (total ?s, nxt) else (bs, ba))"
        by simp
      have "Min (set ?h) = min (total ?s) (Min (set h))"
        using "1.prems"(2) by simp
      then have min: "?bs = Min (set ?h)"
        using "1.prems"(6) by (simp add: min_def)
      have tot: "?bs = total (calculateDrift ?ba lvl)"
        using "1.prems"(7) by simp
      have pos: "0 \<notin> set h"
      proof -
        have "set h = insert (last h) (set (butlast h))"
          using "1.prems"(2) by (metis append_butlast_last_id list.simps(15) rotate1.simps(2) set_rotate1)
        with True "1.prems"(5,8) show ?thesis by auto
      qed
      show ?thesis
      proof (cases "total ?s = 0")
        case stop: True
        with True g Inr "1.prems"(1) have res: "res = \<lparr>artifact = ?ba, retries = r + 1,
            finalScore = calculateDrift ?ba lvl, converged = (?bs = 0), driftHistory = ?h\<rparr>"
          by (simp add: regeneration_loop.simps [of create bp rc lvl score r] Let_def
              split: if_splits)
        from stop True "1.prems" pos tot min show ?thesis
          by (simp add: res del: Min_insert)
      next
        case continue: False
        with True g Inr "1.prems"(1) have rec:
          "regeneration_loop create bp rc lvl ?s (r + 1) ?bs ?ba ?h st1 = (Inr res, st')"
          by (simp add: regeneration_loop.simps [of create bp rc lvl score r] Let_def
              split: if_splits)
        have ih: "length (driftHistory res) = retries res + 1 \<and>
           retries res \<le> regeneration_MAX_RETRIES \<and>
           take (length ?h) (driftHistory res) = ?h \<and>
           finalScore res = calculateDrift (artifact res) lvl \<and>
           total (finalScore res) = Min (set (driftHistory res)) \<and>
           converged res = (total (finalScore res) = 0) \<and>
           0 \<notin> set (butlast (driftHistory res)) \<and>
           (last (driftHistory res) = 0 \<or> retries res = regeneration_MAX_RETRIES)"
          using "1.prems" True pos min tot
          by (intro "1.IH" [OF True g [symmetric] Inr refl refl refl best continue rec]) simp_all
        moreover from this have "take (length h) (driftHistory res) = h"
          by (metis append_eq_conv_conj take_take min.idem le_add1 length_append min_def take_all_iff
              append_take_drop_id)
        ultimately show ?thesis by blast
      qed
    qed
  qed
qed

lemma regenerationEvolve_retries_spec:
  assumes "regenerationEvolve create bp patches
             \<lparr>useRetries = Some True, atypicalityLevel = lvl\<rparr> st = (Inr res, st')"
  shows "\<exists>rc st1 a st2.
           generate create (reconcile_options patches) st = (Inr rc, st1) \<and>
           generate create (generate_options bp rc) st1 = (Inr a, st2) \<and>
           hd (driftHistory res) = total (calculateDrift a (or_else lvl low))"
    and "length (driftHistory res) = retries res + 1"
    and "retries res \<le> regeneration_MAX_RETRIES"
    and "finalScore res = calculateDrift (artifact res) (or_else lvl low)"
    and "total (finalScore res) = Min (set (driftHistory res))"
    and "converged res = (total (finalScore res) = 0)"
    and "0 \<notin> set (butlast (driftHistory res))"
    and "last (driftHistory res) = 0 \<or> retries res = regeneration_MAX_RETRIES"
proof -
  let ?lvl = "or_else lvl low"
  obtain g1 st1 where g1: "generate create (reconcile_options patches) st = (g1, st1)"
    by (cases "generate create (reconcile_options patches) st")
  from assms g1 obtain rc where rc: "g1 = Inr rc"
    by (cases g1) (simp_all add: regenerationEvolve_def)
  obtain g2 st2 where g2: "generate create (generate_options bp rc) st1 = (g2, st2)"
    by (cases "generate create (generate_options bp rc) st1")
  from assms g1 rc g2 obtain a where a: "g2 = Inr a"
    by (cases g2) (simp_all add: regenerationEvolve_def)
  let ?s = "calculateDrift a ?lvl"
  from assms g1 rc g2 a have loop:
    "regeneration_loop create bp rc ?lvl ?s 0 (total ?s) a [total ?s] st2 = (Inr res, st')"
    by (simp add: regenerationEvolve_def Let_def or_else_def)
  have all: "length (driftHistory res) = retries res + 1 \<and>
     retries res \<le> regeneration_MAX_RETRIES \<and>
     take (length [total ?s]) (driftHistory res) = [total ?s] \<and>
     finalScore res = calculateDrift (artifact res) ?lvl \<and>
     total (finalScore res) = Min (set (driftHistory res)) \<and>
     converged res = (total (finalScore res) = 0) \<and>
     0 \<notin> set (butlast (driftHistory res)) \<and>
     (last (driftHistory res) = 0 \<or> retries res = regeneration_MAX_RETRIES)"
    by (rule regeneration_loop_spec [OF loop]) simp_all
  then have "hd (driftHistory res) = total ?s"
    by (cases "driftHistory res") auto
  with g1 rc g2 a show "\<exists>rc st1 a st2.
           generate create (reconcile_options patches) st = (Inr rc, st1) \<and>
           generate create (generate_options bp rc) st1 = (Inr a, st2) \<and>
           hd (driftHistory res) = total (calculateDrift a (or_else lvl low))" by blast
  from all show "length (driftHistory res) = retries res + 1"
    and "retries res \<le> regeneration_MAX_RETRIES"
    and "finalScore res = calculateDrift (artifact res) (or_else lvl low)"
    and "total (finalScore res) = Min (set (driftHistory res))"
    and "converged res = (total (finalScore res) = 0)"
    and "0 \<notin> set (butlast (driftHistory res))"
    and "last (driftHistory res) = 0 \<or> retries res = regeneration_MAX_RETRIES"
    by blast+
qed

lemma regenerationEvolve_constant_empty:
  "fst (regenerationEvolve (constant_endpoint []) blueprint patches
         \<lparr>useRetries = Some True, atypicalityLevel = None\<rparr> st) =
     Inr \<lparr>artifact = [], retries = 3, finalScore = calculateDrift [] low, converged = False,
          driftHistory = [20, 20, 20, 20]\<rparr>"
  by (simp add: regenerationEvolve_def generate_constant_endpoint or_else_def Let_def
      total_calculateDrift_empty regeneration_loop.simps regeneration_MAX_RETRIES_def)

lemma regenerationEvolve_four_attempts:
  assumes "generate create (reconcile_options patches) st = (Inr rc, st1)"
    and "generate create (generate_options blueprint rc) st1 = (Inr a0, st2)"
    and "generate create (regenerate_options blueprint rc
           (regeneration_formatViolations (calculateDrift a0 (or_else lvl low)))) st2 = (Inr a1, st3)"
    and "generate create (regenerate_options blueprint rc
           (regeneration_formatViolations (calculateDrift a1 (or_else lvl low)))) st3 = (Inr a2, st4)"
    and "generate create (regenerate_options blueprint rc
           (regeneration_formatViolations (calculateDrift a2 (or_else lvl low)))) st4 = (Inr a3, st5)"
    and "map (\<lambda>a. total (calculateDrift a (or_else lvl low))) [a0, a1, a2, a3] = [5, 2, 7, 2]"
  shows "regenerationEvolve create blueprint patches
           \<lparr>useRetries = Some True, atypicalityLevel = lvl\<rparr> st =
         (Inr \<lparr>artifact = a1, retries = 3, finalScore = calculateDrift a1 (or_else lvl low),
               converged = False, driftHistory = [5, 2, 7, 2]\<rparr>, st5)"
  using assms(6)
  by (simp add: regenerationEvolve_def assms(1-5) Let_def regeneration_loop.simps
      regeneration_MAX_RETRIES_def or_else_def [of "Some True"])

text \<open>
  C1. With retries enabled, the artifact \<open>regenerationEvolve\<close> returns has, when scored
  again at the level of the run, the smallest total of its drift history, and the final
  score is that score. When the first generation and the three regenerations give
  artifacts with totals 5, 2, 7 and 2, the result is the second artifact, the first with
  total 2, and not the last attempt.
\<close>

theorem regen_full_returns_best:
  "(regenerationEvolve create blueprint patches
        \<lparr>useRetries = Some True, atypicalityLevel = lvl\<rparr> st = (Inr res, st') \<longrightarrow>
      driftHistory res \<noteq> [] \<and>
      total (calculateDrift (artifact res) (or_else lvl low)) = Min (set (driftHistory res)) \<and>
      finalScore res = calculateDrift (artifact res) (or_else lvl low) \<and>
      converged res = (Min (set (driftHistory res)) = 0)) \<and>
   (generate create (reconcile_options patches) st = (Inr rc, st1) \<and>
    generate create (generate_options blueprint rc) st1 = (Inr a0, st2) \<and>
    generate create (regenerate_options blueprint rc
      (regeneration_formatViolations (calculateDrift a0 (or_else lvl low)))) st2 = (Inr a1, st3) \<and>
    generate create (regenerate_options blueprint rc
      (regeneration_formatViolations (calculateDrift a1 (or_else lvl low)))) st3 = (Inr a2, st4) \<and>
    generate create (regenerate_options blueprint rc
      (regeneration_formatViolations (calculateDrift a2 (or_else lvl low)))) st4 = (Inr a3, st5) \<and>
    map (\<lambda>a. total (calculateDrift a (or_else lvl low))) [a0, a1, a2, a3] = [5, 2, 7, 2] \<longrightarrow>
      regenerationEvolve create blueprint patches
          \<lparr>useRetries = Some True, atypicalityLevel = lvl\<rparr> st =
        (Inr \<lparr>artifact = a1, retries = 3, finalScore = calculateDrift a1 (or_else lvl low),
              converged = False, driftHistory = [5, 2, 7, 2]\<rparr>, st5))"
proof (intro conjI impI)
  assume r: "regenerationEvolve create blueprint patches
        \<lparr>useRetries = Some True, atypicalityLevel = lvl\<rparr> st = (Inr res, st')"
  note s = regenerationEvolve_retries_spec [OF r]
  from s(2) show "driftHistory res \<noteq> []" by auto
  from s(4,5) show "total (calculateDrift (artifact res) (or_else lvl low)) =
      Min (set (driftHistory res))" by simp
  from s(4) show "finalScore res = calculateDrift (artifact res) (or_else lvl low)" .
  from s(5,6) show "converged res = (Min (set (driftHistory res)) = 0)" by simp
next
  assume "generate create (reconcile_options patches) st = (Inr rc, st1) \<and>
    generate create (generate_options blueprint rc) st1 = (Inr a0, st2) \<and>
    generate create (regenerate_options blueprint rc
      (regeneration_formatViolations (calculateDrift a0 (or_else lvl low)))) st2 = (Inr a1, st3) \<and>
    generate create (regenerate_options blueprint rc
      (regeneration_formatViolations (calculateDrift a1 (or_else lvl low)))) st3 = (Inr a2, st4) \<and>
    generate create (regenerate_options blueprint rc
      (regeneration_formatViolations (calculateDrift a2 (or_else lvl low)))) st4 = (Inr a3, st5) \<and>
    map (\<lambda>a. total (calculateDrift a (or_else lvl low))) [a0, a1, a2, a3] = [5, 2, 7, 2]"
  then show "regenerationEvolve create blueprint patches
          \<lparr>useRetries = Some True, atypicalityLevel = lvl\<rparr> st =
        (Inr \<lparr>artifact = a1, retries = 3, finalScore = calculateDrift a1 (or_else lvl low),
              converged = False, driftHistory = [5, 2, 7, 2]\<rparr>, st5)"
    by (intro regenerationEvolve_four_attempts) blast+
qed

theorem regen_full_returns_best_witness:
  "map (\<lambda>a. total (calculateDrift a low))
     [draft_score_5, draft_score_2, draft_score_7, draft_score_2_again] = [5, 2, 7, 2] \<and>
   draft_score_2 \<noteq> draft_score_2_again \<and>
   fst (regenerationEvolve (scripted_endpoint four_drafts) ''# Policy'' [''Add a section'']
          \<lparr>useRetries = Some True, atypicalityLevel = None\<rparr> fresh_client) =
     Inr \<lparr>artifact = draft_score_2, retries = 3, finalScore = calculateDrift draft_score_2 low,
          converged = False, driftHistory = [5, 2, 7, 2]\<rparr> \<and>
   total (calculateDrift draft_score_2 low) = Min (set [5, 2, 7, 2])"
proof -
  let ?e = "scripted_endpoint four_drafts"
  let ?st = "\<lambda>k. fresh_client\<lparr>provider := k, totalCalls := k\<rparr>"
  have g: "generate ?e options (?st k) = (Inr (four_drafts ! k), ?st (k + 1))" if "k < 5"
    for options k
    using that generate_scripted [of "?st k" four_drafts options]
    by (simp add: four_drafts_def)
  have f: "?st 0 = fresh_client" by (simp add: fresh_client_def)
  have t: "map (\<lambda>a. total (calculateDrift a (or_else None low)))
     [four_drafts ! 1, four_drafts ! 2, four_drafts ! 3, four_drafts ! 4] = [5, 2, 7, 2]"
    by (simp add: four_drafts_def or_else_def total_draft_score_5 total_draft_score_2
        total_draft_score_7 total_draft_score_2_again)
  let ?res = "\<lparr>artifact = four_drafts ! 2, retries = 3,
              finalScore = calculateDrift (four_drafts ! 2) (or_else None low),
              converged = False, driftHistory = [5, 2, 7, 2]\<rparr>"
  note best = regen_full_returns_best [of ?e "''# Policy''" "[''Add a section'']" None "?st 0"
        ?res "?st 5" "four_drafts ! 0" "?st 1" "four_drafts ! 1" "?st 2" "four_drafts ! 2"
        "?st 3" "four_drafts ! 3" "?st 4" "four_drafts ! 4" "?st 5"]
  have run: "regenerationEvolve ?e ''# Policy'' [''Add a section'']
          \<lparr>useRetries = Some True, atypicalityLevel = None\<rparr> (?st 0) = (Inr ?res, ?st 5)"
    using best g [of 0] g [of 1] g [of 2] g [of 3] g [of 4] t
    by simp
  with best have "total (calculateDrift (artifact ?res) (or_else None low)) =
      Min (set (driftHistory ?res))"
    by blast
  note run this
  moreover have "draft_score_2 \<noteq> draft_score_2_again"
    by (simp add: draft_score_2_def draft_score_2_again_def)
  ultimately show ?thesis
    by (simp add: f four_drafts_def or_else_def total_draft_score_5 total_draft_score_2
        total_draft_score_7 total_draft_score_2_again)
qed

section \<open>The length of the drift history\<close>

text \<open>
  C9. When \<open>repairEvolve\<close>, or \<open>regenerationEvolve\<close> with retries enabled, returns, its
  drift history has exactly \<open>retries + 1\<close> entries, and the first entry is the total of
  the artifact of the first generation (for \<open>regenerationEvolve\<close>, the generation that
  follows the reconciliation).
\<close>

theorem driftHistory_entries:
  "(repairEvolve create previousArtifact patchRequest st = (Inr res, st') \<longrightarrow>
      length (driftHistory res) = retries res + 1 \<and>
      (\<exists>a st1. generate create (patch_options previousArtifact patchRequest) st = (Inr a, st1) \<and>
         hd (driftHistory res) = total (calculateDrift a low))) \<and>
   (regenerationEvolve create blueprint patches
        \<lparr>useRetries = Some True, atypicalityLevel = lvl\<rparr> st = (Inr res, st') \<longrightarrow>
      length (driftHistory res) = retries res + 1 \<and>
      (\<exists>rc st1 a st2.
         generate create (reconcile_options patches) st = (Inr rc, st1) \<and>
         generate create (generate_options blueprint rc) st1 = (Inr a, st2) \<and>
         hd (driftHistory res) = total (calculateDrift a (or_else lvl low))))"
proof (intro conjI impI)
  assume r: "repairEvolve create previousArtifact patchRequest st = (Inr res, st')"
  from repairEvolve_spec(2) [OF r] show "length (driftHistory res) = retries res + 1" .
  from repairEvolve_spec(1) [OF r]
  show "\<exists>a st1. generate create (patch_options previousArtifact patchRequest) st = (Inr a, st1) \<and>
         hd (driftHistory res) = total (calculateDrift a low)" .
next
  assume r: "regenerationEvolve create blueprint patches
        \<lparr>useRetries = Some True, atypicalityLevel = lvl\<rparr> st = (Inr res, st')"
  from regenerationEvolve_retries_spec(2) [OF r]
  show "length (driftHistory res) = retries res + 1" .
  from regenerationEvolve_retries_spec(1) [OF r]
  show "\<exists>rc st1 a st2.
         generate create (reconcile_options patches) st = (Inr rc, st1) \<and>
         generate create (generate_options blueprint rc) st1 = (Inr a, st2) \<and>
         hd (driftHistory res) = total (calculateDrift a (or_else lvl low))" .
qed

theorem driftHistory_entries_witness:
  "repairEvolve (constant_endpoint []) ''# Policy'' ''Add a section'' fresh_client =
     (Inr \<lparr>artifact = [], retries = 1, finalScore = calculateDrift [] low, converged = False,
           driftHistory = [20, 20]\<rparr>,
      snd (repairEvolve (constant_endpoint []) ''# Policy'' ''Add a section'' fresh_client)) \<and>
   length [20, 20 :: nat] = 1 + 1 \<and>
   regenerationEvolve (constant_endpoint []) ''# Policy'' [''Add a section'']
       \<lparr>useRetries = Some True, atypicalityLevel = None\<rparr> fresh_client =
     (Inr \<lparr>artifact = [], retries = 3, finalScore = calculateDrift [] low, converged = False,
           driftHistory = [20, 20, 20, 20]\<rparr>,
      snd (regenerationEvolve (constant_endpoint []) ''# Policy'' [''Add a section'']
            \<lparr>useRetries = Some True, atypicalityLevel = None\<rparr> fresh_client)) \<and>
   length [20, 20, 20, 20 :: nat] = 3 + 1 \<and>
   hd [20, 20, 20, 20 :: nat] = total (calculateDrift [] low)"
proof -
  let ?r = "repairEvolve (constant_endpoint []) ''# Policy'' ''Add a section'' fresh_client"
  let ?g = "regenerationEvolve (constant_endpoint []) ''# Policy'' [''Add a section'']
       \<lparr>useRetries = Some True, atypicalityLevel = None\<rparr> fresh_client"
  let ?res = "\<lparr>artifact = [], retries = 1, finalScore = calculateDrift [] low, converged = False,
           driftHistory = [20, 20]\<rparr>"
  let ?res' = "\<lparr>artifact = [], retries = 3, finalScore = calculateDrift [] low, converged = False,
           driftHistory = [20, 20, 20, 20]\<rparr>"
  have r: "?r = (Inr ?res, snd ?r)"
    using repairEvolve_constant_empty [of "''# Policy''" "''Add a section''" fresh_client]
    by (metis prod.collapse)
  have g: "?g = (Inr ?res', snd ?g)"
    using regenerationEvolve_constant_empty [of "''# Policy''" "[''Add a section'']" fresh_client]
    by (metis prod.collapse)
  from driftHistory_entries [of "constant_endpoint []" "''# Policy''" "''Add a section''"
      fresh_client ?res "snd ?r"] r
  have "length (driftHistory ?res) = retries ?res + 1" by blast
  moreover from driftHistory_entries [of "constant_endpoint []" _ _ fresh_client ?res' "snd ?g"
      "''# Policy''" "[''Add a section'']" None] g
  have "length (driftHistory ?res') = retries ?res' + 1" by blast
  ultimately show ?thesis
    using r g by (simp add: total_calculateDrift_empty)
qed

section \<open>The convergence flag the runner records\<close>

lemma occurrences_draft_score_0:
  "occurrences ''Zero Trust'' draft_score_0 = 1"
  "occurrences ''MFA'' draft_score_0 = 1"
  "occurrences ''Bastion Host'' draft_score_0 = 1"
  "occurrences ''RBAC'' draft_score_0 = 1"
  "occurrences ''Data At Rest'' draft_score_0 = 1"
  "occurrences ''Data In Transit'' draft_score_0 = 1"
  "occurrences ''Least Privilege'' draft_score_0 = 1"
  "occurrences ''Air Gap'' draft_score_0 = 1"
  "occurrences ''SLA'' draft_score_0 = 1"
  "occurrences ''Biometric'' draft_score_0 = 1"
  "occurrences ''Cryptographic Salt'' draft_score_0 = 1"
  "occurrences ''PKI'' draft_score_0 = 1"
  "occurrences ''Endpoint Telemetry'' draft_score_0 = 1"
  "occurrences ''SIEM'' draft_score_0 = 1"
  "occurrences ''SOC2'' draft_score_0 = 1"
  "occurrences ''GDPR'' draft_score_0 = 1"
  "occurrences ''OIDC'' draft_score_0 = 1"
  "occurrences ''SAML'' draft_score_0 = 1"
  "occurrences ''Kill Chain'' draft_score_0 = 1"
  "occurrences ''Honeypot'' draft_score_0 = 1"
  by (simp_all only: draft_score_0_def eval_occurrences)

lemma plain_draft_score_0:
  "CHR ''#'' \<notin> set draft_score_0" "scan_references draft_score_0 = []"
  "sentences_of draft_score_0 = [draft_score_0]" "wordCount draft_score_0 = 12"
  by (simp_all add: draft_score_0_def eval_plain)

lemma total_draft_score_0: "total (calculateDrift draft_score_0 low) = 0"
  by (subst total_plain_text [OF plain_draft_score_0(1,2,3)])
     (simp_all add: plain_draft_score_0(4) VOCABULARY_def occurrences_draft_score_0)

lemma words_of_draft_score_0:
  "words_of draft_score_0 =
     [''Zero'', ''Trust'', ''MFA'', ''Bastion'', ''Host'', ''RBAC'', ''Data'', ''At'', ''Rest'', ''Data'', ''In'', ''Transit'', ''Least'', ''Privilege'', ''Air'', ''Gap'', ''SLA'', ''Biometric'', ''Cryptographic'', ''Salt'', ''PKI'', ''Endpoint'', ''Telemetry'', ''SIEM'', ''SOC2'', ''GDPR'', ''OIDC'', ''SAML'', ''Kill'', ''Chain'', ''Honeypot'']"
  by (simp add: draft_score_0_def words_of.simps is_word_char_def is_lower_Char is_upper_Char is_digit_Char)

lemma total_at_level:
  "total (calculateDrift text level) =
     total (calculateDrift text low) + violations (validateAtypicality text level)"
  by (simp add: calculateDrift_def Let_def validateAtypicality_def)

lemma total_draft_score_0_high: "total (calculateDrift draft_score_0 high) = 20"
proof -
  have "violations (validateAtypicality draft_score_0 high) =
      length (filter third_char_lowercase (words_of draft_score_0))"
    by (simp add: validateAtypicality_def violations_foldl_thirdletter_step)
  also have "\<dots> = 20"
    by (simp add: words_of_draft_score_0 third_char_lowercase_def is_lower_Char)
  finally show ?thesis
    by (simp add: total_at_level [of _ high] total_draft_score_0)
qed

lemma repairEvolve_constant_draft_score_0:
  "fst (repairEvolve (constant_endpoint draft_score_0) previousArtifact patchRequest st) =
     Inr \<lparr>artifact = draft_score_0, retries = 0, finalScore = calculateDrift draft_score_0 low,
          converged = True, driftHistory = [0]\<rparr>"
  by (simp add: repairEvolve_def generate_constant_endpoint Let_def total_draft_score_0
      repair_loop.simps)

text \<open>
  C2. The claim: for every strategy, the convergence flag of the result and of the
  recorded iteration metrics is true exactly when the total of the returned artifact, at
  the level of the run, is 0. The code at two inputs: for the incremental strategy the
  runner records the flag as true whatever the total (here 20, for an endpoint that
  returns the empty text); for the repair strategy the flag comes from the total at the
  default level, while the recorded total is at the level of the run (here the flag is
  true and the total at the third-character level is 20).
\<close>

theorem converged_flag_despite_drift:
  "map_sum id (\<lambda>(a, m). (a, m_converged m, driftScore m))
     (fst (run_iteration (constant_endpoint [])
        \<lparr>opt_strategy = incremental, opt_runId = ''run_01'', opt_iterations = 1,
         opt_atypicalityLevel = None\<rparr>
        ''# Policy'' 1 ''Add a section'' [''Add a section''] ''# Policy'' fresh_client)) =
     Inr ([], True, 20) \<and>
   map_sum id (\<lambda>(a, m). (a, m_converged m, driftScore m))
     (fst (run_iteration (constant_endpoint draft_score_0)
        \<lparr>opt_strategy = repair, opt_runId = ''run_01'', opt_iterations = 1,
         opt_atypicalityLevel = Some high\<rparr>
        ''# Policy'' 1 ''Add a section'' [''Add a section''] ''# Policy'' fresh_client)) =
     Inr (draft_score_0, True, 20) \<and>
   total (calculateDrift [] low) = 20 \<and> total (calculateDrift draft_score_0 high) = 20"
proof -
  let ?r = "repairEvolve (constant_endpoint draft_score_0) ''# Policy''
             (''Add a section'' @ getAtypicalityPrompt high) fresh_client"
  obtain st' where "?r = (Inr \<lparr>artifact = draft_score_0, retries = 0,
                   finalScore = calculateDrift draft_score_0 low,
                   converged = True, driftHistory = [0]\<rparr>, st')"
    using repairEvolve_constant_draft_score_0 [of "''# Policy''"
        "''Add a section'' @ getAtypicalityPrompt high" fresh_client]
    by (metis prod.collapse)
  then show ?thesis
    by (simp add: run_iteration_def Let_def or_else_def incrementalEvolve_def
        generate_constant_endpoint metrics_of_def total_calculateDrift_empty
        total_draft_score_0_high)
qed

section \<open>The headings of the two validators\<close>

lemma space_not_digit: "is_space c \<Longrightarrow> \<not> is_digit c"
  by (auto simp: is_space_def is_digit_def)

lemma space_not_hash: "is_space c \<Longrightarrow> c \<noteq> CHR ''#''"
  by (auto simp: is_space_def)

lemma digit_not_hash: "is_digit c \<Longrightarrow> c \<noteq> CHR ''#''"
  by (auto simp: is_digit_def)

lemma hash_not_line_terminator: "\<not> is_line_terminator (CHR ''#'')"
  by (simp add: is_line_terminator_def)

lemma match_number_plain:
  assumes "takeWhile is_digit s \<noteq> []"
    and "drop (length (takeWhile is_digit s)) s = CHR ''.'' # d # r" and "is_space d"
  shows "match_number (\<lambda>r. case r of c # d # r' \<Rightarrow> c = CHR ''.'' \<and> is_space d | _ \<Rightarrow> False) s =
           Some (takeWhile is_digit s)"
proof -
  have "takeWhile is_digit (d # r) = []"
    using assms(3) by (simp add: space_not_digit)
  with assms show ?thesis
    by (simp add: match_number_def Let_def)
qed

lemma template_match_is_crossref_match:
  assumes "match_template_heading s = Some (ds, title, n)"
  shows "\<exists>n'. match_crossref_heading s = Some (ds, n')"
proof -
  let ?hashes = "takeWhile (\<lambda>c. c = CHR ''#'') (take 2 s)"
  let ?r1 = "drop (length ?hashes) s"
  let ?ws1 = "takeWhile is_space ?r1"
  let ?r2 = "drop (length ?ws1) ?r1"
  let ?ds = "takeWhile is_digit ?r2"
  let ?r3 = "drop (length ?ds) ?r2"
  from assms have ne: "?hashes \<noteq> []" "?ws1 \<noteq> []" "?ds \<noteq> []"
    by (auto simp: match_template_heading_def Let_def split: if_splits)
  from assms ne obtain r4 where r3: "?r3 = CHR ''.'' # r4"
    by (auto simp: match_template_heading_def Let_def split: if_splits list.splits)
  from assms ne r3 have ws2: "takeWhile is_space r4 \<noteq> []" and ds: "ds = ?ds"
    by (auto simp: match_template_heading_def Let_def split: if_splits)
  from ws2 obtain d r where r4: "r4 = d # r" and d: "is_space d"
    by (cases r4) (auto split: if_splits)
  have "match_number (\<lambda>r. case r of c # d # r' \<Rightarrow> c = CHR ''.'' \<and> is_space d | _ \<Rightarrow> False) ?r2 =
      Some ?ds"
    using ne(3) r3 r4 d by (intro match_number_plain) simp_all
  with ne ds show ?thesis
    by (simp add: match_crossref_heading_def Let_def)
qed

lemma takeWhile_take2_prefix:
  "takeWhile P (take 2 s) = take (length (takeWhile P (take 2 s))) s"
proof -
  have "length (takeWhile P (take 2 s)) \<le> 2"
    using length_takeWhile_le [of P "take 2 s"] by simp
  then have "take (length (takeWhile P (take 2 s))) (take 2 s) =
      take (length (takeWhile P (take 2 s))) s"
    by (simp add: min_def)
  then show ?thesis
    using takeWhile_eq_take [of P "take 2 s"] by simp
qed

lemma match_number_prefix:
  assumes "match_number follows s = Some num"
  shows "\<exists>rest. s = num @ rest \<and> follows rest \<and> CHR ''#'' \<notin> set num \<and> num \<noteq> []"
proof -
  let ?ds = "takeWhile is_digit s"
  let ?r = "drop (length ?ds) s"
  from assms have ne: "?ds \<noteq> []"
    by (auto simp: match_number_def Let_def split: if_splits)
  have s: "s = ?ds @ ?r"
    by (metis append_take_drop_id takeWhile_eq_take)
  have dh: "CHR ''#'' \<notin> set (takeWhile is_digit xs)" for xs
    by (auto dest: set_takeWhileD digit_not_hash)
  show ?thesis
  proof (cases "\<exists>r'. ?r = CHR ''.'' # r' \<and> takeWhile is_digit r' \<noteq> [] \<and>
      follows (drop (length (takeWhile is_digit r')) r')")
    case True
    then obtain r' where r: "?r = CHR ''.'' # r'" and ne2: "takeWhile is_digit r' \<noteq> []"
      and f: "follows (drop (length (takeWhile is_digit r')) r')" by blast
    let ?ds2 = "takeWhile is_digit r'"
    from assms ne r ne2 f have num: "num = ?ds @ ''.'' @ ?ds2"
      by (simp add: match_number_def Let_def)
    have "r' = ?ds2 @ drop (length ?ds2) r'"
      by (metis append_take_drop_id takeWhile_eq_take)
    with s r have sp: "s = num @ drop (length ?ds2) r'"
      by (simp add: num)
    have nh: "CHR ''#'' \<notin> set num"
      unfolding num using dh [of s] dh [of r'] by simp
    have "num \<noteq> []" using ne by (simp add: num)
    with sp f nh show ?thesis by blast
  next
    case False
    with assms ne have num: "num = ?ds" and f: "follows ?r"
      by (auto simp: match_number_def Let_def split: list.splits if_splits)
    have nh: "CHR ''#'' \<notin> set num"
      unfolding num by (rule dh)
    have "s = num @ ?r" unfolding num by (rule s)
    with f nh ne num show ?thesis by blast
  qed
qed

lemma crossref_match_shape:
  assumes "match_crossref_heading s = Some (num, n)"
  shows "\<exists>hashes body rest. s = hashes @ body @ rest \<and> n = length hashes + length body \<and>
           hashes \<noteq> [] \<and> set hashes \<subseteq> {CHR ''#''} \<and> CHR ''#'' \<notin> set body"
proof -
  let ?hashes = "takeWhile (\<lambda>c. c = CHR ''#'') (take 2 s)"
  let ?r1 = "drop (length ?hashes) s"
  let ?ws1 = "takeWhile is_space ?r1"
  let ?r2 = "drop (length ?ws1) ?r1"
  let ?f = "\<lambda>r. case r of c # d # r' \<Rightarrow> c = CHR ''.'' \<and> is_space d | _ \<Rightarrow> False"
  from assms have ne: "?hashes \<noteq> []" "?ws1 \<noteq> []"
    by (auto simp: match_crossref_heading_def Let_def split: if_splits)
  from assms ne have mn: "match_number ?f ?r2 = Some num"
    and n: "n = length ?hashes + length ?ws1 + length num + 1 +
                length (takeWhile is_space (drop (length num + 1) ?r2))"
    by (auto simp: match_crossref_heading_def Let_def split: option.splits)
  from match_number_prefix [OF mn] obtain rest where
    r2: "?r2 = num @ rest" and f: "?f rest" and nh: "CHR ''#'' \<notin> set num" by blast
  from f obtain d r' where rest: "rest = CHR ''.'' # d # r'" and d: "is_space d"
    by (auto split: list.splits)
  let ?ws2 = "takeWhile is_space (d # r')"
  have dr: "drop (length num + 1) ?r2 = d # r'"
    by (subst r2) (simp add: rest)
  have s1: "s = ?hashes @ ?r1"
    using takeWhile_take2_prefix [of "\<lambda>c. c = CHR ''#''" s] by (metis append_take_drop_id)
  have s2: "?r1 = ?ws1 @ ?r2"
    by (metis append_take_drop_id takeWhile_eq_take)
  have s3: "d # r' = ?ws2 @ dropWhile is_space (d # r')"
    by simp
  let ?body = "?ws1 @ num @ ''.'' @ ?ws2"
  have "s = ?hashes @ ?body @ dropWhile is_space (d # r')"
    using s1 s2 r2 rest s3 by (metis append_Cons append_Nil append_assoc)
  moreover have "n = length ?hashes + length ?body"
    using n dr by simp
  moreover have "set ?hashes \<subseteq> {CHR ''#''}"
    by (auto dest: set_takeWhileD)
  moreover have "CHR ''#'' \<notin> set ?body"
    using nh by (auto dest!: set_takeWhileD space_not_hash)
  ultimately show ?thesis using ne(1) by blast
qed

lemma line_start_matches_drop:
  "line_start_matches m (is_line_terminator ((c # cs) ! k)) (drop k cs) \<subseteq>
   line_start_matches m (is_line_terminator c) cs"
proof (induction k arbitrary: c cs)
  case 0
  then show ?case by simp
next
  case (Suc k)
  show ?case
  proof (cases cs)
    case Nil
    then show ?thesis by simp
  next
    case (Cons d ds)
    with Suc [of d ds] show ?thesis by auto
  qed
qed

lemma scan_headings_sound:
  "snd ` set (scan_headings m pos bol s) \<subseteq> line_start_matches m bol s"
proof (induction m pos bol s rule: scan_headings.induct)
  case (1 m pos bol)
  then show ?case by simp
next
  case (2 m pos bol c cs)
  show ?case
  proof (cases "if bol then m (c # cs) else None")
    case None
    with 2 show ?thesis by (auto split: if_splits)
  next
    case (Some x)
    obtain a n where x: "x = (a, n)" by (cases x)
    from Some have bol: bol and m: "m (c # cs) = Some (a, n)"
      by (auto simp: x split: if_splits)
    have "snd ` set (scan_headings m (pos + n) (is_line_terminator ((c # cs) ! (n - 1)))
        (drop (n - 1) cs)) \<subseteq>
      line_start_matches m (is_line_terminator ((c # cs) ! (n - 1))) (drop (n - 1) cs)"
      by (rule "2.IH"(2) [OF Some x [symmetric]])
    also have "\<dots> \<subseteq> line_start_matches m (is_line_terminator c) cs"
      by (rule line_start_matches_drop)
    finally show ?thesis
      using bol m by auto
  qed
qed

lemma scan_headings_complete:
  assumes "\<And>c cs a n. m (c # cs) = Some (a, n) \<Longrightarrow>
     line_start_matches m (is_line_terminator c) cs =
     line_start_matches m (is_line_terminator ((c # cs) ! (n - 1))) (drop (n - 1) cs)"
  shows "line_start_matches m bol s \<subseteq> snd ` set (scan_headings m pos bol s)"
  using assms
proof (induction m pos bol s rule: scan_headings.induct)
  case (1 m pos bol)
  then show ?case by simp
next
  case (2 m pos bol c cs)
  show ?case
  proof (cases "if bol then m (c # cs) else None")
    case None
    have "line_start_matches m (is_line_terminator c) cs \<subseteq>
        snd ` set (scan_headings m (pos + 1) (is_line_terminator c) cs)"
      by (rule "2.IH"(1) [OF None "2.prems"])
    with None show ?thesis by (auto split: if_splits)
  next
    case (Some x)
    obtain a n where x: "x = (a, n)" by (cases x)
    from Some have bol: bol and m: "m (c # cs) = Some (a, n)"
      by (auto simp: x split: if_splits)
    have "line_start_matches m (is_line_terminator c) cs =
        line_start_matches m (is_line_terminator ((c # cs) ! (n - 1))) (drop (n - 1) cs)"
      by (rule "2.prems" [OF m])
    also have "\<dots> \<subseteq> snd ` set (scan_headings m (pos + n)
        (is_line_terminator ((c # cs) ! (n - 1))) (drop (n - 1) cs))"
      by (rule "2.IH"(2) [OF Some x [symmetric] "2.prems"])
    finally show ?thesis
      using bol m by auto
  qed
qed

lemma line_start_matches_mono:
  assumes "\<And>s a n. m1 s = Some (a, n) \<Longrightarrow> \<exists>n'. m2 s = Some (f a, n')"
  shows "f ` line_start_matches m1 bol s \<subseteq> line_start_matches m2 bol s"
proof (induction s arbitrary: bol)
  case Nil
  then show ?case by simp
next
  case (Cons c cs)
  have "f ` (case m1 (c # cs) of Some (a, n) \<Rightarrow> {a} | None \<Rightarrow> {}) \<subseteq>
      (case m2 (c # cs) of Some (a, n) \<Rightarrow> {a} | None \<Rightarrow> {})"
  proof (cases "m1 (c # cs)")
    case None
    then show ?thesis by simp
  next
    case (Some x)
    obtain a n where "x = (a, n)" by (cases x)
    with Some assms [of "c # cs" a n] show ?thesis by auto
  qed
  with Cons [of "is_line_terminator c"] show ?case by auto
qed

lemma line_start_matches_hashes:
  assumes "\<And>s x. m s = Some x \<Longrightarrow> s \<noteq> [] \<and> hd s = CHR ''#''"
  shows "set h \<subseteq> {CHR ''#''} \<Longrightarrow>
    line_start_matches m False (h @ xs) = line_start_matches m False xs"
  by (induction h) (simp_all add: hash_not_line_terminator)

lemma line_start_matches_body:
  assumes "\<And>s x. m s = Some x \<Longrightarrow> s \<noteq> [] \<and> hd s = CHR ''#''"
  shows "CHR ''#'' \<notin> set body \<Longrightarrow>
    line_start_matches m b (body @ xs) =
    line_start_matches m (if body = [] then b else is_line_terminator (last body)) xs"
proof (induction body arbitrary: b)
  case Nil
  then show ?case by simp
next
  case (Cons x body)
  have "m (x # body @ xs) = None"
  proof (cases "m (x # body @ xs)")
    case (Some y)
    from assms [OF Some] Cons.prems show ?thesis by simp
  qed simp
  with Cons show ?case by simp
qed

lemma crossref_matches_do_not_overlap:
  assumes "match_crossref_heading (c # cs) = Some (num, n)"
  shows "line_start_matches match_crossref_heading (is_line_terminator c) cs =
     line_start_matches match_crossref_heading (is_line_terminator ((c # cs) ! (n - 1)))
       (drop (n - 1) cs)"
proof -
  from crossref_match_shape [OF assms] obtain hashes body rest where
    s: "c # cs = hashes @ body @ rest" and n: "n = length hashes + length body"
    and ne: "hashes \<noteq> []" and h: "set hashes \<subseteq> {CHR ''#''}" and b: "CHR ''#'' \<notin> set body"
    by blast
  from ne obtain h2 where hashes: "hashes = c # h2"
    using s by (cases hashes) auto
  with h have c: "c = CHR ''#''" and h2: "set h2 \<subseteq> {CHR ''#''}" by auto
  from s hashes have cs: "cs = h2 @ body @ rest" by simp
  have len: "n - 1 = length (h2 @ body)" using n hashes by simp
  have drop: "drop (n - 1) cs = rest"
    unfolding len cs by simp
  have last: "(c # cs) ! (n - 1) = last (c # h2 @ body)"
  proof -
    have "(c # cs) ! (n - 1) = (c # h2 @ body) ! (n - 1)"
      unfolding cs len by (simp add: nth_append flip: append_Cons append_assoc)
    then show ?thesis
      unfolding len by (simp add: last_conv_nth)
  qed
  have flag: "is_line_terminator ((c # cs) ! (n - 1)) =
      (if body = [] then False else is_line_terminator (last body))"
  proof (cases "body = []")
    case True
    have "last (c # h2 @ body) = CHR ''#''"
      using True c h2 by (cases h2 rule: rev_cases) auto
    with last have "(c # cs) ! (n - 1) = CHR ''#''" by (simp only:)
    with True show ?thesis
      by (metis hash_not_line_terminator)
  next
    case False
    then have "last (c # h2 @ body) = last body" by simp
    with last have "(c # cs) ! (n - 1) = last body" by (simp only:)
    with False show ?thesis by (simp only: if_False)
  qed
  have "line_start_matches match_crossref_heading (is_line_terminator c) cs =
      line_start_matches match_crossref_heading False (h2 @ body @ rest)"
    by (simp add: c cs hash_not_line_terminator)
  also have "\<dots> = line_start_matches match_crossref_heading False (body @ rest)"
    using h2 by (intro line_start_matches_hashes match_crossref_heading_hash)
  also have "\<dots> = line_start_matches match_crossref_heading
      (if body = [] then False else is_line_terminator (last body)) rest"
    using b by (intro line_start_matches_body match_crossref_heading_hash)
  finally show ?thesis
    by (simp only: flag drop)
qed

lemma template_numbers_subset:
  "set (template_section_numbers text) \<subseteq> set (existing_sections text)"
proof -
  let ?mt = "\<lambda>s. map_option (\<lambda>(ds, title, n). ((ds, title), n)) (match_template_heading s)"
  have "set (template_section_numbers text) = fst ` snd ` set (scan_headings ?mt 0 True text)"
    by (force simp: template_section_numbers_def template_headings_def image_iff)
  also have "\<dots> \<subseteq> fst ` line_start_matches ?mt True text"
    by (intro image_mono scan_headings_sound)
  also have "\<dots> \<subseteq> line_start_matches match_crossref_heading True text"
  proof (rule line_start_matches_mono)
    fix s a n
    assume "?mt s = Some (a, n)"
    then have "match_template_heading s = Some (fst a, snd a, n)"
      by (auto split: prod.splits)
    then show "\<exists>n'. match_crossref_heading s = Some (fst a, n')"
      by (rule template_match_is_crossref_match)
  qed
  also have "\<dots> \<subseteq> snd ` set (scan_headings match_crossref_heading 0 True text)"
    by (intro scan_headings_complete crossref_matches_do_not_overlap)
  also have "\<dots> = set (existing_sections text)"
    by (simp add: existing_sections_def)
  finally show ?thesis .
qed

lemmas eval_headings =
  existing_sections_def template_section_numbers_def template_headings_def
  match_crossref_heading_def match_template_heading_def match_number_def Let_def
  is_space_Char is_digit_Char is_line_terminator_def

text \<open>
  C4. The claim: for every text, the section numbers the cross-reference validator
  collects are the section numbers the template validator's section parse recognises.
  It fails for a heading with a dotted number, which only the cross-reference validator's
  pattern matches.
\<close>

theorem section_numbers_differ:
  "set (existing_sections doc_dotted_heading) \<noteq> set (template_section_numbers doc_dotted_heading)"
proof -
  have "existing_sections doc_dotted_heading = [''1.2'']"
    by (simp add: doc_dotted_heading_def eval_headings)
  moreover have "template_section_numbers doc_dotted_heading = []"
    by (simp add: doc_dotted_heading_def eval_headings)
  ultimately show ?thesis by simp
qed

text \<open>
  C4, as amended. For every text, every section number the template validator's section
  parse recognises is among the section numbers the cross-reference validator collects.
\<close>

theorem template_sections_are_targets:
  "set (template_section_numbers text) \<subseteq> set (existing_sections text)"
  by (rule template_numbers_subset)

theorem template_sections_are_targets_witness:
  "template_section_numbers doc_three_headings = [''1'', ''3''] \<and>
   existing_sections doc_three_headings = [''1'', ''2.1'', ''3''] \<and>
   set (template_section_numbers doc_three_headings) \<subseteq> set (existing_sections doc_three_headings)"
proof -
  have "existing_sections doc_three_headings = [''1'', ''2.1'', ''3'']"
    by (simp add: doc_three_headings_def eval_headings)
  moreover have "template_section_numbers doc_three_headings = [''1'', ''3'']"
    by (simp add: doc_three_headings_def eval_headings)
  ultimately show ?thesis
    using template_sections_are_targets [of doc_three_headings] by simp
qed

end
